theory Spec2Isabelle
  imports Complex_Main "HOL-Library.Sublist"
begin

section \<open>Python values, exceptions and loops\<close>

text \<open>
  The program is \<^verbatim>\<open>darts/model_search.py\<close>: the DARTS search network (classes
  \<^verbatim>\<open>MixedOp\<close>, \<^verbatim>\<open>Cell\<close>, \<^verbatim>\<open>InnerCell\<close>, \<^verbatim>\<open>ModelForModelSizeMeasure\<close>, \<^verbatim>\<open>Network\<close>,
  \<^verbatim>\<open>EMNIST\<close>).  Every exception the Python can raise is a value \<open>Inl e\<close> of the result
  type \<open>error + 'a\<close>.  Weights are floating-point numbers in the source; they are
  modelled as \<open>real\<close>, so the theorems are about the order and the arithmetic of exact
  numbers (no rounding, no NaN).
\<close>

datatype error = IndexError | KeyError | ValueError | TypeError | RuntimeError

text \<open>\<^verbatim>\<open>range(n)\<close>: empty when \<open>n \<le> 0\<close>.\<close>

definition py_range :: "int \<Rightarrow> nat list" where
  "py_range n = [0..<nat n]"

text \<open>
  \<^verbatim>\<open>for x in xs: body\<close> with the loop's mutable variables as the state \<open>s\<close>; an exception
  raised by the body ends the loop.
\<close>

fun for_loop :: "'a list \<Rightarrow> 's \<Rightarrow> ('s \<Rightarrow> 'a \<Rightarrow> error + 's) \<Rightarrow> error + 's" where
  "for_loop [] s body = Inr s"
| "for_loop (x # xs) s body =
     (case body s x of Inl e \<Rightarrow> Inl e | Inr s' \<Rightarrow> for_loop xs s' body)"

text \<open>\<^verbatim>\<open>xs[i]\<close> for a non-negative index: IndexError out of range.\<close>

definition getitem :: "'a list \<Rightarrow> nat \<Rightarrow> error + 'a" where
  "getitem xs i = (if i < length xs then Inr (xs ! i) else Inl IndexError)"

section \<open>Modules\<close>

text \<open>
  A constructed \<^verbatim>\<open>nn.Module\<close> is described by its constructor and the arguments it was
  built with; applying a module to a tensor is left to the numeric engine (a parameter
  \<open>run\<close> of the forward functions).
\<close>

datatype module =
    Operation string int int bool
  | BatchNorm2d int bool
  | Sequential "module list"
  | FactorizedReduce int int bool
  | ReLUConvBN int int int int int bool
  | Conv2d int int int int bool
  | AdaptiveAvgPool2d int
  | Linear int int

text \<open>
  Modelled from the spec: the dictionary \<^verbatim>\<open>OPS\<close> of \<^verbatim>\<open>darts/operations.py\<close> is not part of
  the sources at hand.  The spec's OperationRegistry is
  \<^verbatim>\<open>construct(name, channel_width, stride, affine_flag) -> callable_transform\<close> plus an
  ordered enumeration of the names.  The list \<open>keys\<close> is \<^verbatim>\<open>list(OPS.keys())\<close>, a parameter;
  \<^verbatim>\<open>OPS[name](C, stride, affine)\<close> raises KeyError for a name that is not a key and
  otherwise builds the operation of that name with these arguments.
\<close>

definition OPS :: "string list \<Rightarrow> string \<Rightarrow> int \<Rightarrow> int \<Rightarrow> bool \<Rightarrow> error + module" where
  "OPS keys name C stride affine =
     (if name \<in> set keys then Inr (Operation name C stride affine) else Inl KeyError)"

text \<open>
  The lines shared by \<^verbatim>\<open>MixedOp.__init__\<close> and \<^verbatim>\<open>InnerCell.__init__\<close>:
  \<^verbatim>\<open>op = OPS[primitive](C, stride, False)\<close>, and a pooling operation is followed by a
  batch normalisation without affine parameters.
\<close>

definition make_op :: "string list \<Rightarrow> string \<Rightarrow> int \<Rightarrow> int \<Rightarrow> error + module" where
  "make_op keys primitive C stride =
     (case OPS keys primitive C stride False of
        Inl e \<Rightarrow> Inl e
      | Inr op \<Rightarrow>
          Inr (if sublist ''pool'' primitive then Sequential [op, BatchNorm2d C False] else op))"

subsection \<open>MixedOp\<close>

text \<open>
  \<^verbatim>\<open>MixedOp.__init__(C, stride)\<close>: one operation for every entry of \<^verbatim>\<open>PRIMITIVES\<close>, in
  order.  \<^verbatim>\<open>PRIMITIVES\<close> (of \<^verbatim>\<open>darts/genotypes.py\<close>, not in the sources at hand) is the
  parameter \<open>PRIMITIVES\<close> of every function that reads it.
\<close>

datatype mixed_op = MixedOp (mixed_ops: "module list")

definition MixedOp_init :: "string list \<Rightarrow> string list \<Rightarrow> int \<Rightarrow> int \<Rightarrow> error + mixed_op" where
  "MixedOp_init PRIMITIVES keys C stride =
     (case for_loop PRIMITIVES []
             (\<lambda>ops primitive.
                case make_op keys primitive C stride of
                  Inl e \<Rightarrow> Inl e
                | Inr op \<Rightarrow> Inr (ops @ [op]))
      of Inl e \<Rightarrow> Inl e | Inr ops \<Rightarrow> Inr (MixedOp ops))"

subsection \<open>Cell\<close>

record 'o cell =
  cell_reduction :: bool
  cell_preprocess0 :: module
  cell_preprocess1 :: module
  cell_steps :: int
  cell_multiplier :: int
  cell_ops :: "'o list"

text \<open>The preprocessing modules, built the same way by \<^verbatim>\<open>Cell\<close> and \<^verbatim>\<open>InnerCell\<close>.\<close>

definition make_preprocess0 :: "int \<Rightarrow> int \<Rightarrow> bool \<Rightarrow> module" where
  "make_preprocess0 C_prev_prev C reduction_prev =
     (if reduction_prev then FactorizedReduce C_prev_prev C False
      else ReLUConvBN C_prev_prev C 1 1 0 False)"

definition make_preprocess1 :: "int \<Rightarrow> int \<Rightarrow> module" where
  "make_preprocess1 C_prev C = ReLUConvBN C_prev C 1 1 0 False"

text \<open>The stride of the edge from source \<open>j\<close>: \<^verbatim>\<open>2 if reduction and j < 2 else 1\<close>.\<close>

definition edge_stride :: "bool \<Rightarrow> nat \<Rightarrow> int" where
  "edge_stride reduction j = (if reduction \<and> j < 2 then 2 else 1)"

text \<open>
  \<^verbatim>\<open>Cell.__init__\<close>: for every intermediate node \<open>i\<close> and every source \<open>j < 2 + i\<close>, one
  \<^verbatim>\<open>MixedOp(C, stride)\<close> is appended to \<^verbatim>\<open>self._ops\<close>.
\<close>

definition Cell_init ::
  "string list \<Rightarrow> string list \<Rightarrow> int \<Rightarrow> int \<Rightarrow> int \<Rightarrow> int \<Rightarrow> int \<Rightarrow> bool \<Rightarrow> bool
     \<Rightarrow> error + mixed_op cell" where
  "Cell_init PRIMITIVES keys steps multiplier C_prev_prev C_prev C reduction reduction_prev =
     (case for_loop (py_range steps) []
             (\<lambda>ops i. for_loop (py_range (2 + int i)) ops
                (\<lambda>ops j.
                   case MixedOp_init PRIMITIVES keys C (edge_stride reduction j) of
                     Inl e \<Rightarrow> Inl e
                   | Inr op \<Rightarrow> Inr (ops @ [op])))
      of Inl e \<Rightarrow> Inl e
       | Inr ops \<Rightarrow>
           Inr \<lparr>cell_reduction = reduction,
                cell_preprocess0 = make_preprocess0 C_prev_prev C reduction_prev,
                cell_preprocess1 = make_preprocess1 C_prev C,
                cell_steps = steps,
                cell_multiplier = multiplier,
                cell_ops = ops\<rparr>)"

text \<open>
  \<^verbatim>\<open>MixedOp.forward(x, weights)\<close>:
  \<^verbatim>\<open>sum(w * op(x) for w, op in zip(weights, self._ops))\<close>.  Tensors are the elements of a
  real vector space \<open>'t\<close>; \<^verbatim>\<open>sum\<close> starts from 0 and adds the terms from left to right.
  The second component of the result is the list of the operations that were called, in
  the order of the calls: the generator calls \<^verbatim>\<open>op(x)\<close> once for every pair of the zip.
\<close>

definition MixedOp_forward ::
  "(module \<Rightarrow> 't \<Rightarrow> 't) \<Rightarrow> mixed_op \<Rightarrow> 't::real_vector \<Rightarrow> real list \<Rightarrow> 't \<times> module list" where
  "MixedOp_forward run self x weights =
     foldl (\<lambda>(acc, called) (w, op). (acc + w *\<^sub>R run op x, called @ [op]))
       (0, []) (zip weights (mixed_ops self))"

text \<open>\<^verbatim>\<open>xs[start:]\<close>, Python's slice with a negative start counted from the end.\<close>

definition slice_from :: "'a list \<Rightarrow> int \<Rightarrow> 'a list" where
  "slice_from xs start =
     (let n = int (length xs);
          s = (if start < 0 then max 0 (n + start) else min start n)
      in drop (nat s) xs)"

text \<open>
  A value in \<^verbatim>\<open>Cell.forward\<close> is a tensor or the int 0: \<^verbatim>\<open>sum\<close> of no term at all is Python's
  int 0, not a tensor.  \<^verbatim>\<open>0 + t\<close> and \<^verbatim>\<open>t + 0\<close> are the tensor \<open>t\<close>.
\<close>

datatype 't pyval = IntZero | TensorVal 't

fun py_add :: "'t::real_vector pyval \<Rightarrow> 't pyval \<Rightarrow> 't pyval" where
  "py_add IntZero v = v"
| "py_add (TensorVal t) IntZero = TensorVal t"
| "py_add (TensorVal t) (TensorVal u) = TensorVal (t + u)"

text \<open>
  \<^verbatim>\<open>torch.cat(tensors, dim=1)\<close>: the concatenation itself is the engine's (the parameter
  \<open>cat\<close>).  A list with an element that is no tensor is a TypeError, an empty list an
  error.
\<close>

fun tensors_of :: "'t pyval list \<Rightarrow> 't list option" where
  "tensors_of [] = Some []"
| "tensors_of (IntZero # vs) = None"
| "tensors_of (TensorVal t # vs) = map_option ((#) t) (tensors_of vs)"

definition torch_cat :: "('t list \<Rightarrow> 't) \<Rightarrow> 't pyval list \<Rightarrow> error + 't" where
  "torch_cat cat vs =
     (case tensors_of vs of
        None \<Rightarrow> Inl TypeError
      | Some ts \<Rightarrow> if ts = [] then Inl RuntimeError else Inr (cat ts))"

text \<open>
  The term of the sum in \<^verbatim>\<open>Cell.forward\<close> for the state \<open>h\<close> at position \<open>j\<close>:
  \<^verbatim>\<open>self._ops[offset + j](h, weights[offset + j])\<close>.  When the zip of the weight row and
  the operations is empty (a row without columns, or no primitive), \<^verbatim>\<open>MixedOp.forward\<close>
  calls no operation and its \<^verbatim>\<open>sum\<close> is the int 0.  Otherwise the operations are applied to
  \<open>h\<close>, which must be a tensor.  (The rows of a two-dimensional tensor have one width and
  the MixedOps of a cell one length, so the zips of a cell are all empty or all
  non-empty, and \<open>h\<close> is the int 0 only when they are all empty; for a list of rows of
  different widths, which is no tensor, the model reports the application of an
  operation to the int as a TypeError.)
\<close>

definition Cell_edge ::
  "(module \<Rightarrow> 't \<Rightarrow> 't) \<Rightarrow> mixed_op cell \<Rightarrow> real list list \<Rightarrow> nat \<Rightarrow> nat
     \<Rightarrow> 't::real_vector pyval \<Rightarrow> error + 't pyval" where
  "Cell_edge run self weights offset j h =
     (case getitem (cell_ops self) (offset + j) of
        Inl e \<Rightarrow> Inl e
      | Inr op \<Rightarrow>
          (case getitem weights (offset + j) of
             Inl e \<Rightarrow> Inl e
           | Inr w \<Rightarrow>
               if zip w (mixed_ops op) = [] then Inr IntZero
               else (case h of
                       IntZero \<Rightarrow> Inl TypeError
                     | TensorVal t \<Rightarrow> Inr (TensorVal (fst (MixedOp_forward run op t w))))))"

text \<open>
  \<^verbatim>\<open>Cell.forward(s0, s1, weights)\<close>.  The loop state is \<^verbatim>\<open>(states, offset)\<close>; the inner
  \<^verbatim>\<open>sum\<close> runs over \<^verbatim>\<open>enumerate(states)\<close>, starts from the int 0 and adds the terms from
  left to right.
\<close>

definition Cell_forward ::
  "(module \<Rightarrow> 't \<Rightarrow> 't) \<Rightarrow> ('t list \<Rightarrow> 't) \<Rightarrow> mixed_op cell \<Rightarrow> 't::real_vector \<Rightarrow> 't
     \<Rightarrow> real list list \<Rightarrow> error + 't" where
  "Cell_forward run cat self s0 s1 weights =
     (let s0 = run (cell_preprocess0 self) s0;
          s1 = run (cell_preprocess1 self) s1
      in case for_loop (py_range (cell_steps self)) ([TensorVal s0, TensorVal s1], 0)
                (\<lambda>(states, offset) i.
                   case for_loop (enumerate 0 states) IntZero
                          (\<lambda>s (j, h).
                             case Cell_edge run self weights offset j h of
                               Inl e \<Rightarrow> Inl e
                             | Inr t \<Rightarrow> Inr (py_add s t))
                   of Inl e \<Rightarrow> Inl e
                    | Inr s \<Rightarrow> Inr (states @ [s], offset + length states))
         of Inl e \<Rightarrow> Inl e
          | Inr (states, offset) \<Rightarrow>
              torch_cat cat (slice_from states (- cell_multiplier self)))"

subsection \<open>InnerCell\<close>

text \<open>
  \<^verbatim>\<open>Tensor.argmax()\<close> of a one-dimensional tensor, as the library documents it: the index
  of the first maximal value; an empty tensor is an error.
\<close>

fun first_max :: "real list \<Rightarrow> nat" where
  "first_max [] = 0"
| "first_max [x] = 0"
| "first_max (x # y # ys) =
     (let k = first_max (y # ys) in if (y # ys) ! k \<le> x then 0 else Suc k)"

definition argmax :: "real list \<Rightarrow> error + nat" where
  "argmax row = (if row = [] then Inl RuntimeError else Inr (first_max row))"

text \<open>
  The body of the inner loop of \<^verbatim>\<open>InnerCell.__init__\<close>, for the edge from source \<open>j\<close>:
  the row \<^verbatim>\<open>weights.data[offset + j]\<close>, the key at the position of its argmax, and the
  operation of that key.  \<open>weights\<close> is the table \<^verbatim>\<open>weights.data\<close>.
\<close>

definition InnerCell_edge ::
  "string list \<Rightarrow> int \<Rightarrow> bool \<Rightarrow> real list list \<Rightarrow> nat \<Rightarrow> nat \<Rightarrow> error + module" where
  "InnerCell_edge keys C reduction weights offset j =
     (case getitem weights (offset + j) of
        Inl e \<Rightarrow> Inl e
      | Inr weight \<Rightarrow>
          (case argmax weight of
             Inl e \<Rightarrow> Inl e
           | Inr k \<Rightarrow>
               (case getitem keys k of
                  Inl e \<Rightarrow> Inl e
                | Inr choice \<Rightarrow> make_op keys choice C (edge_stride reduction j))))"

text \<open>\<^verbatim>\<open>InnerCell.__init__\<close>.  The loop state is \<^verbatim>\<open>(self._ops, offset)\<close>.\<close>

definition InnerCell_init ::
  "string list \<Rightarrow> int \<Rightarrow> int \<Rightarrow> int \<Rightarrow> int \<Rightarrow> int \<Rightarrow> bool \<Rightarrow> bool \<Rightarrow> real list list
     \<Rightarrow> error + module cell" where
  "InnerCell_init keys steps multiplier C_prev_prev C_prev C reduction reduction_prev weights =
     (case for_loop (py_range steps) ([], 0)
             (\<lambda>(ops, offset) i.
                case for_loop (py_range (2 + int i)) ops
                       (\<lambda>ops j.
                          case InnerCell_edge keys C reduction weights offset j of
                            Inl e \<Rightarrow> Inl e
                          | Inr op \<Rightarrow> Inr (ops @ [op]))
                of Inl e \<Rightarrow> Inl e
                 | Inr ops \<Rightarrow> Inr (ops, offset + i + 2))
      of Inl e \<Rightarrow> Inl e
       | Inr (ops, offset) \<Rightarrow>
           Inr \<lparr>cell_reduction = reduction,
                cell_preprocess0 = make_preprocess0 C_prev_prev C reduction_prev,
                cell_preprocess1 = make_preprocess1 C_prev C,
                cell_steps = steps,
                cell_multiplier = multiplier,
                cell_ops = ops\<rparr>)"

section \<open>Architecture weights and the network\<close>

text \<open>
  A two-dimensional tensor has a shape (rows, columns) and its values, row by row.  The
  tensors the code shares and mutates (the architecture weights and their history) live
  in a heap; a \<^verbatim>\<open>Parameter\<close> is the address of its tensor.  A function that allocates or
  writes returns the new world; after an exception of such a function the world is
  not tracked.
\<close>

datatype tensor = Tensor (t_rows: nat) (t_cols: nat) (t_data: "real list list")

type_synonym addr = nat

record world =
  heap :: "addr \<Rightarrow> tensor"
  next_addr :: addr

definition alloc :: "tensor \<Rightarrow> world \<Rightarrow> addr \<times> world" where
  "alloc t w = (next_addr w, w\<lparr>heap := (heap w)(next_addr w := t), next_addr := Suc (next_addr w)\<rparr>)"

text \<open>
  \<^verbatim>\<open>c * torch.randn(k, n)\<close>: a \<open>k \<times> n\<close> tensor; the samples drawn are the parameter \<open>z\<close>
  (the sample for row \<open>r\<close> and column \<open>c\<close> is \<open>z r c\<close>).
\<close>

definition randn :: "nat \<Rightarrow> nat \<Rightarrow> (nat \<Rightarrow> nat \<Rightarrow> real) \<Rightarrow> tensor" where
  "randn k n z = Tensor k n (map (\<lambda>r. map (\<lambda>c. z r c) [0..<n]) [0..<k])"

definition scale :: "real \<Rightarrow> tensor \<Rightarrow> tensor" where
  "scale a t = Tensor (t_rows t) (t_cols t) (map (map (\<lambda>v. a * v)) (t_data t))"

definition zeros_like :: "tensor \<Rightarrow> tensor" where
  "zeros_like t = Tensor (t_rows t) (t_cols t) (replicate (t_rows t) (replicate (t_cols t) 0))"

text \<open>
  \<^verbatim>\<open>x.data.copy_(y.data)\<close> writes the values of \<open>y\<close> into the storage of \<open>x\<close>; the source
  must have the shape of the destination or be broadcastable to it (a dimension of size
  1 is repeated), otherwise the library raises.
\<close>

definition copy_data :: "addr \<Rightarrow> addr \<Rightarrow> world \<Rightarrow> error + world" where
  "copy_data x y w =
     (let dst = heap w x; src = heap w y
      in if t_rows src = t_rows dst \<and> t_cols src = t_cols dst
         then Inr (w\<lparr>heap := (heap w)(x := Tensor (t_rows dst) (t_cols dst) (t_data src))\<rparr>)
         else if (t_rows src = t_rows dst \<or> t_rows src = 1)
                 \<and> (t_cols src = t_cols dst \<or> t_cols src = 1)
         then Inr (w\<lparr>heap := (heap w)(x := Tensor (t_rows dst) (t_cols dst)
                 (map (\<lambda>i. map (\<lambda>j. t_data src ! (if t_rows src = 1 then 0 else i)
                                               ! (if t_cols src = 1 then 0 else j))
                                [0..<t_cols dst])
                      [0..<t_rows dst]))\<rparr>)
         else Inl RuntimeError)"

datatype net_class = Network | EMNIST

record network =
  net_class :: net_class
  net_C :: int
  net_num_classes :: int
  net_layers :: int
  net_criterion :: nat
  net_steps :: int
  net_multiplier :: int
  net_stem_multiplier :: int
  net_device :: string
  net_stem :: module
  net_cells :: "mixed_op cell list"
  net_global_pooling :: module
  net_classifier :: module
  alphas_normal :: addr
  alphas_reduce :: addr
  history_normal :: addr
  history_reduce :: addr

text \<open>
  The loop over the layers, the same in \<^verbatim>\<open>Network.__init__\<close>, \<^verbatim>\<open>EMNIST.__init__\<close> and
  \<^verbatim>\<open>ModelForModelSizeMeasure.__init__\<close> up to the cell constructor \<open>mk\<close>.  The loop state
  is \<^verbatim>\<open>(C_prev_prev, C_prev, C_curr, cells, reduction_prev)\<close>; the result is the list of
  cells and the last \<^verbatim>\<open>C_prev\<close>.
\<close>

definition build_cells ::
  "int \<Rightarrow> int \<Rightarrow> int \<Rightarrow> int \<Rightarrow> (int \<Rightarrow> int \<Rightarrow> int \<Rightarrow> bool \<Rightarrow> bool \<Rightarrow> error + 'o cell)
     \<Rightarrow> error + 'o cell list \<times> int" where
  "build_cells layers multiplier stem_multiplier C mk =
     (let C_curr = stem_multiplier * C
      in case for_loop (py_range layers) (C_curr, C_curr, C, [], False)
                (\<lambda>(C_prev_prev, C_prev, C_curr, cells, reduction_prev) i.
                   let reduction = (int i = layers div 3 \<or> int i = 2 * layers div 3);
                       C_curr = (if reduction then C_curr * 2 else C_curr)
                   in case mk C_prev_prev C_prev C_curr reduction reduction_prev of
                        Inl e \<Rightarrow> Inl e
                      | Inr cell \<Rightarrow>
                          Inr (C_prev, multiplier * C_curr, C_curr, cells @ [cell], reduction))
         of Inl e \<Rightarrow> Inl e
          | Inr (C_prev_prev, C_prev, C_curr, cells, reduction_prev) \<Rightarrow> Inr (cells, C_prev))"

text \<open>\<^verbatim>\<open>k = sum(1 for i in range(self._steps) for n in range(2 + i))\<close>.\<close>

definition count_edges :: "int \<Rightarrow> nat" where
  "count_edges steps = sum_list [1. i \<leftarrow> py_range steps, n \<leftarrow> py_range (2 + int i)]"

text \<open>
  \<^verbatim>\<open>_initialize_alphas\<close>: two fresh parameters of shape \<^verbatim>\<open>(k, len(PRIMITIVES))\<close> and two
  history tensors of zeros.  The result is the four addresses, in the order
  \<^verbatim>\<open>alphas_normal, alphas_reduce, history_normal, history_reduce\<close>.
\<close>

definition initialize_alphas ::
  "string list \<Rightarrow> int \<Rightarrow> (nat \<Rightarrow> nat \<Rightarrow> real) \<Rightarrow> (nat \<Rightarrow> nat \<Rightarrow> real) \<Rightarrow> world
     \<Rightarrow> (addr \<times> addr \<times> addr \<times> addr) \<times> world" where
  "initialize_alphas PRIMITIVES steps z_normal z_reduce w =
     (let k = count_edges steps;
          num_ops = length PRIMITIVES;
          (a_normal, w1) = alloc (scale (1 / 1000) (randn k num_ops z_normal)) w;
          (a_reduce, w2) = alloc (scale (1 / 1000) (randn k num_ops z_reduce)) w1;
          (h_normal, w3) = alloc (zeros_like (heap w2 a_normal)) w2;
          (h_reduce, w4) = alloc (zeros_like (heap w3 a_reduce)) w3
      in ((a_normal, a_reduce, h_normal, h_reduce), w4))"

text \<open>
  \<^verbatim>\<open>Network.__init__\<close> and \<^verbatim>\<open>EMNIST.__init__\<close>: they differ in the class of the object and
  in the input channels of the stem (3 and 1).
\<close>

definition stem_channels :: "net_class \<Rightarrow> int" where
  "stem_channels cls = (case cls of Network \<Rightarrow> 3 | EMNIST \<Rightarrow> 1)"

definition Network_init ::
  "net_class \<Rightarrow> string list \<Rightarrow> string list \<Rightarrow> int \<Rightarrow> int \<Rightarrow> int \<Rightarrow> nat \<Rightarrow> string
     \<Rightarrow> int \<Rightarrow> int \<Rightarrow> int \<Rightarrow> (nat \<Rightarrow> nat \<Rightarrow> real) \<Rightarrow> (nat \<Rightarrow> nat \<Rightarrow> real) \<Rightarrow> world
     \<Rightarrow> error + network \<times> world" where
  "Network_init cls PRIMITIVES keys C num_classes layers criterion device
       steps multiplier stem_multiplier z_normal z_reduce w =
     (case build_cells layers multiplier stem_multiplier C
             (\<lambda>C_prev_prev C_prev C_curr reduction reduction_prev.
                Cell_init PRIMITIVES keys steps multiplier C_prev_prev C_prev C_curr
                  reduction reduction_prev)
      of Inl e \<Rightarrow> Inl e
       | Inr (cells, C_prev) \<Rightarrow>
           (let ((a_normal, a_reduce, h_normal, h_reduce), w') =
                  initialize_alphas PRIMITIVES steps z_normal z_reduce w
            in Inr (\<lparr>net_class = cls,
                     net_C = C,
                     net_num_classes = num_classes,
                     net_layers = layers,
                     net_criterion = criterion,
                     net_steps = steps,
                     net_multiplier = multiplier,
                     net_stem_multiplier = stem_multiplier,
                     net_device = device,
                     net_stem = Sequential
                       [Conv2d (stem_channels cls) (stem_multiplier * C) 3 1 False,
                        BatchNorm2d (stem_multiplier * C) True],
                     net_cells = cells,
                     net_global_pooling = AdaptiveAvgPool2d 1,
                     net_classifier = Linear C_prev num_classes,
                     alphas_normal = a_normal,
                     alphas_reduce = a_reduce,
                     history_normal = h_normal,
                     history_reduce = h_reduce\<rparr>, w')))"

definition arch_parameters :: "network \<Rightarrow> addr list" where
  "arch_parameters self = [alphas_normal self, alphas_reduce self]"

text \<open>
  \<^verbatim>\<open>Network.new\<close> and \<^verbatim>\<open>EMNIST.new\<close> (the two bodies are the same text): a
  \<^verbatim>\<open>Network(self._C, self._num_classes, self._layers, self._criterion, self.device)\<close>,
  so with the defaults \<^verbatim>\<open>steps=4, multiplier=4, stem_multiplier=3\<close>, then the copy of
  the architecture weights.  \<open>z_normal\<close> and \<open>z_reduce\<close> are the samples drawn for the new
  network's tables.
\<close>

definition new ::
  "string list \<Rightarrow> string list \<Rightarrow> network \<Rightarrow> (nat \<Rightarrow> nat \<Rightarrow> real) \<Rightarrow> (nat \<Rightarrow> nat \<Rightarrow> real) \<Rightarrow> world
     \<Rightarrow> error + network \<times> world" where
  "new PRIMITIVES keys self z_normal z_reduce w =
     (case Network_init Network PRIMITIVES keys (net_C self) (net_num_classes self)
             (net_layers self) (net_criterion self) (net_device self) 4 4 3
             z_normal z_reduce w
      of Inl e \<Rightarrow> Inl e
       | Inr (model_new, w') \<Rightarrow>
           (case for_loop (zip (arch_parameters model_new) (arch_parameters self)) w'
                   (\<lambda>w (x, y). copy_data x y w)
            of Inl e \<Rightarrow> Inl e
             | Inr w'' \<Rightarrow> Inr (model_new, w'')))"

section \<open>Genotype extraction\<close>

text \<open>\<^verbatim>\<open>xs.index(v)\<close>: the first position of \<open>v\<close>, ValueError when it does not occur.\<close>

fun index_from :: "'a list \<Rightarrow> 'a \<Rightarrow> nat \<Rightarrow> error + nat" where
  "index_from [] v n = Inl ValueError"
| "index_from (x # xs) v n = (if x = v then Inr n else index_from xs v (Suc n))"

definition list_index :: "'a list \<Rightarrow> 'a \<Rightarrow> error + nat" where
  "list_index xs v = index_from xs v 0"

text \<open>\<^verbatim>\<open>max(iterable)\<close>: ValueError on an empty iterable; the first maximal item is kept.\<close>

definition py_max :: "real list \<Rightarrow> error + real" where
  "py_max vs =
     (case vs of
        [] \<Rightarrow> Inl ValueError
      | v # rest \<Rightarrow> Inr (foldl (\<lambda>m x. if m < x then x else m) v rest))"

text \<open>
  \<^verbatim>\<open>sorted(xs, key=key)\<close>: the key of every item is computed once, in order, and the
  items are sorted by their keys with a stable sort.
\<close>

definition py_sorted :: "'a list \<Rightarrow> ('a \<Rightarrow> error + real) \<Rightarrow> error + 'a list" where
  "py_sorted xs key =
     (case for_loop xs []
             (\<lambda>decorated x.
                case key x of Inl e \<Rightarrow> Inl e | Inr v \<Rightarrow> Inr (decorated @ [(x, v)]))
      of Inl e \<Rightarrow> Inl e
       | Inr decorated \<Rightarrow> Inr (map fst (sort_key snd decorated)))"

text \<open>
  The key of \<^verbatim>\<open>_parse\<close>'s sort, without its sign:
  \<^verbatim>\<open>max(W[x][k] for k in range(len(W[x])) if k != PRIMITIVES.index("none"))\<close>.
\<close>

definition edge_max :: "string list \<Rightarrow> real list list \<Rightarrow> nat \<Rightarrow> error + real" where
  "edge_max PRIMITIVES W x =
     (case getitem W x of
        Inl e \<Rightarrow> Inl e
      | Inr row \<Rightarrow>
          (case for_loop (py_range (int (length row))) []
                  (\<lambda>vals k.
                     case list_index PRIMITIVES ''none'' of
                       Inl e \<Rightarrow> Inl e
                     | Inr none \<Rightarrow> Inr (if k \<noteq> none then vals @ [row ! k] else vals))
           of Inl e \<Rightarrow> Inl e
            | Inr vals \<Rightarrow> py_max vals))"

text \<open>
  The inner loop of \<^verbatim>\<open>_parse\<close> over the operations of the edge \<open>j\<close>; the loop state is
  \<^verbatim>\<open>k_best\<close>.
\<close>

definition find_k_best :: "string list \<Rightarrow> real list list \<Rightarrow> nat \<Rightarrow> error + nat option" where
  "find_k_best PRIMITIVES W j =
     (case getitem W j of
        Inl e \<Rightarrow> Inl e
      | Inr row \<Rightarrow>
          for_loop (py_range (int (length row))) None
            (\<lambda>k_best k.
               case list_index PRIMITIVES ''none'' of
                 Inl e \<Rightarrow> Inl e
               | Inr none \<Rightarrow>
                   Inr (if k \<noteq> none
                        then (case k_best of
                                None \<Rightarrow> Some k
                              | Some b \<Rightarrow> if row ! b < row ! k then Some k else k_best)
                        else k_best)))"

definition isCNNStructure :: "nat \<Rightarrow> bool" where
  "isCNNStructure k_best = (4 \<le> k_best)"

text \<open>
  \<^verbatim>\<open>_parse(weights)\<close> of \<^verbatim>\<open>genotype\<close>.  The loop state is
  \<^verbatim>\<open>(gene, n, start, cnn_structure_count)\<close>; \<^verbatim>\<open>W = weights[start:end]\<close> is the slice of
  the rows.  \<^verbatim>\<open>_isCNNStructure(None)\<close> compares \<^verbatim>\<open>None >= 4\<close>, a TypeError.
\<close>

definition parse :: "string list \<Rightarrow> int \<Rightarrow> real list list \<Rightarrow> error + (string \<times> nat) list \<times> nat" where
  "parse PRIMITIVES steps weights =
     (case for_loop (py_range steps) ([], 2, 0, 0)
             (\<lambda>(gene, n, start, cnn_structure_count) i.
                let stop = start + n;
                    W = take (stop - start) (drop start weights)
                in case py_sorted (py_range (int i + 2))
                          (\<lambda>x. case edge_max PRIMITIVES W x of
                                  Inl e \<Rightarrow> Inl e
                                | Inr m \<Rightarrow> Inr (- m))
                   of Inl e \<Rightarrow> Inl e
                    | Inr sorted_edges \<Rightarrow>
                        (case for_loop (take 2 sorted_edges) (gene, cnn_structure_count)
                                (\<lambda>(gene, cnn_structure_count) j.
                                   case find_k_best PRIMITIVES W j of
                                     Inl e \<Rightarrow> Inl e
                                   | Inr None \<Rightarrow> Inl TypeError
                                   | Inr (Some k_best) \<Rightarrow>
                                       (case getitem PRIMITIVES k_best of
                                          Inl e \<Rightarrow> Inl e
                                        | Inr name \<Rightarrow>
                                            Inr (gene @ [(name, j)],
                                                 if isCNNStructure k_best
                                                 then cnn_structure_count + 1
                                                 else cnn_structure_count)))
                         of Inl e \<Rightarrow> Inl e
                          | Inr (gene, cnn_structure_count) \<Rightarrow>
                              Inr (gene, n + 1, stop, cnn_structure_count)))
      of Inl e \<Rightarrow> Inl e
       | Inr (gene, n, start, cnn_structure_count) \<Rightarrow> Inr (gene, cnn_structure_count))"

text \<open>
  The named tuple \<^verbatim>\<open>Genotype\<close> (of \<^verbatim>\<open>darts/genotypes.py\<close>) with the four fields the code
  fills.  A \<^verbatim>\<open>range(a, b)\<close> is the list of its integers.
\<close>

record genotype =
  normal :: "(string \<times> nat) list"
  normal_concat :: "int list"
  reduce :: "(string \<times> nat) list"
  reduce_concat :: "int list"

definition py_range2 :: "int \<Rightarrow> int \<Rightarrow> int list" where
  "py_range2 a b = [a..b - 1]"

text \<open>
  \<^verbatim>\<open>Network.genotype\<close> (and \<^verbatim>\<open>EMNIST.genotype\<close>, the same text).  \<^verbatim>\<open>F.softmax(\<dots>, dim=-1)\<close>
  is the library's: the parameter \<open>softmax\<close>, applied to every row.
\<close>

definition genotype_of ::
  "(real list \<Rightarrow> real list) \<Rightarrow> string list \<Rightarrow> network \<Rightarrow> world
     \<Rightarrow> error + (genotype \<times> nat \<times> nat) \<times> world" where
  "genotype_of softmax PRIMITIVES self w =
     (case parse PRIMITIVES (net_steps self)
             (map softmax (t_data (heap w (alphas_normal self)))) of
        Inl e \<Rightarrow> Inl e
      | Inr (gene_normal, cnn_structure_count_normal) \<Rightarrow>
          (case parse PRIMITIVES (net_steps self)
                  (map softmax (t_data (heap w (alphas_reduce self)))) of
             Inl e \<Rightarrow> Inl e
           | Inr (gene_reduce, cnn_structure_count_reduce) \<Rightarrow>
               (let concat = py_range2 (2 + net_steps self - net_multiplier self)
                               (net_steps self + 2)
                in Inr ((\<lparr>normal = gene_normal,
                          normal_concat = concat,
                          reduce = gene_reduce,
                          reduce_concat = concat\<rparr>,
                         cnn_structure_count_normal,
                         cnn_structure_count_reduce), w))))"

section \<open>The model for the size measurement\<close>

record size_model =
  sm_C :: int
  sm_num_classes :: int
  sm_layers :: int
  sm_criterion :: nat
  sm_steps :: int
  sm_multiplier :: int
  sm_stem :: module
  sm_cells :: "module cell list"
  sm_global_pooling :: module
  sm_classifier :: module

text \<open>
  \<^verbatim>\<open>ModelForModelSizeMeasure.__init__\<close>: the two parameters are passed as they are (by
  reference, as the addresses \<open>a_normal\<close> and \<open>a_reduce\<close>); every \<^verbatim>\<open>InnerCell.__init__\<close> reads
  \<^verbatim>\<open>weights.data\<close> of its parameter in the heap.  The world is returned also when the
  constructor raises.
\<close>

definition ModelForModelSizeMeasure_init ::
  "string list \<Rightarrow> int \<Rightarrow> int \<Rightarrow> int \<Rightarrow> nat \<Rightarrow> addr \<Rightarrow> addr \<Rightarrow> int \<Rightarrow> int \<Rightarrow> int \<Rightarrow> world
     \<Rightarrow> (error + size_model) \<times> world" where
  "ModelForModelSizeMeasure_init keys C num_classes layers criterion a_normal a_reduce
       steps multiplier stem_multiplier w =
     (case build_cells layers multiplier stem_multiplier C
             (\<lambda>C_prev_prev C_prev C_curr reduction reduction_prev.
                InnerCell_init keys steps multiplier C_prev_prev C_prev C_curr
                  reduction reduction_prev
                  (t_data (heap w (if reduction then a_reduce else a_normal))))
      of Inl e \<Rightarrow> (Inl e, w)
       | Inr (cells, C_prev) \<Rightarrow>
           (Inr \<lparr>sm_C = C,
                 sm_num_classes = num_classes,
                 sm_layers = layers,
                 sm_criterion = criterion,
                 sm_steps = steps,
                 sm_multiplier = multiplier,
                 sm_stem = Sequential
                   [Conv2d 3 (stem_multiplier * C) 3 1 False,
                    BatchNorm2d (stem_multiplier * C) True],
                 sm_cells = cells,
                 sm_global_pooling = AdaptiveAvgPool2d 1,
                 sm_classifier = Linear C_prev num_classes\<rparr>, w))"

text \<open>
  \<^verbatim>\<open>get_current_model_size\<close>: the model is built from \<^verbatim>\<open>self.alphas_normal\<close> and
  \<^verbatim>\<open>self.alphas_reduce\<close> themselves.  \<^verbatim>\<open>count_parameters_in_MB\<close> (of \<^verbatim>\<open>darts/utils.py\<close>) is
  the parameter \<open>count_parameters_in_MB\<close>; \<^verbatim>\<open>del model\<close> drops the only reference to the
  model.  The world is returned also when the call raises.
\<close>

definition get_current_model_size ::
  "(size_model \<Rightarrow> real) \<Rightarrow> string list \<Rightarrow> network \<Rightarrow> world \<Rightarrow> (error + real) \<times> world" where
  "get_current_model_size count_parameters_in_MB keys self w =
     (case ModelForModelSizeMeasure_init keys (net_C self) (net_num_classes self)
             (net_layers self) (net_criterion self) (alphas_normal self) (alphas_reduce self)
             (net_steps self) (net_multiplier self) (net_stem_multiplier self) w
      of (Inl e, w') \<Rightarrow> (Inl e, w')
       | (Inr model, w') \<Rightarrow> (Inr (count_parameters_in_MB model), w'))"

section \<open>A network state\<close>

text \<open>
  The state after \<^verbatim>\<open>Network(4, 10, 1, criterion, 'cpu', steps=1, multiplier=1)\<close> over the
  primitives \<^verbatim>\<open>"none"\<close> and \<^verbatim>\<open>"skip_connect"\<close> and some updates of the weights by the
  optimizer: the network has one cell (a reduction cell), its two weight tables are at
  the addresses 0 and 1 and their histories at 2 and 3.
\<close>

definition example_net :: network where
  "example_net =
     \<lparr>net_class = Network, net_C = 4, net_num_classes = 10, net_layers = 1,
      net_criterion = 0, net_steps = 1, net_multiplier = 1, net_stem_multiplier = 3,
      net_device = ''cpu'',
      net_stem = Sequential [Conv2d 3 12 3 1 False, BatchNorm2d 12 True],
      net_cells =
        [\<lparr>cell_reduction = True,
          cell_preprocess0 = ReLUConvBN 12 8 1 1 0 False,
          cell_preprocess1 = ReLUConvBN 12 8 1 1 0 False,
          cell_steps = 1, cell_multiplier = 1,
          cell_ops =
            [MixedOp [Operation ''none'' 8 2 False, Operation ''skip_connect'' 8 2 False],
             MixedOp [Operation ''none'' 8 2 False, Operation ''skip_connect'' 8 2 False]]\<rparr>],
      net_global_pooling = AdaptiveAvgPool2d 1,
      net_classifier = Linear 8 10,
      alphas_normal = 0, alphas_reduce = 1, history_normal = 2, history_reduce = 3\<rparr>"

definition example_world :: world where
  "example_world =
     \<lparr>heap = (\<lambda>a. if a = 0 then Tensor 2 2 [[1 / 10, 2 / 10], [3 / 10, 1 / 10]]
                  else if a = 1 then Tensor 2 2 [[5 / 10, 2 / 10], [1 / 10, 4 / 10]]
                  else Tensor 2 2 [[0, 0], [0, 0]]),
      next_addr = 4\<rparr>"

section \<open>Notions of the specification\<close>

text \<open>
  The row of the edge into the intermediate node \<open>i\<close> from the source \<open>j\<close> is
  \<open>edge_offset i + j\<close>, where \<open>edge_offset i\<close> is the number of edges into the earlier
  nodes (node \<open>k\<close> has \<open>k + 2\<close> of them).
\<close>

definition edge_offset :: "nat \<Rightarrow> nat" where
  "edge_offset i = (\<Sum>k<i. k + 2)"

text \<open>
  The stride an operation was constructed with, read off the constructed module (for a
  pooling operation, off the operation in front of the batch normalisation).
\<close>

fun op_stride :: "module \<Rightarrow> int option" where
  "op_stride (Operation name C stride affine) = Some stride"
| "op_stride (Sequential (m # ms)) = op_stride m"
| "op_stride m = None"

text \<open>The name of the operation on an edge of an \<^verbatim>\<open>InnerCell\<close>, read off the module.\<close>

fun op_name :: "module \<Rightarrow> string option" where
  "op_name (Operation name C stride affine) = Some name"
| "op_name (Sequential (m # ms)) = op_name m"
| "op_name m = None"

text \<open>
  The notions of the genotype extraction.  The strength of an edge is the greatest
  weight of its row over all operations but the one at the position \<open>none\<close>.
\<close>

definition strength :: "nat \<Rightarrow> real list \<Rightarrow> real" where
  "strength none row = Max {row ! k | k. k < length row \<and> k \<noteq> none}"

text \<open>
  The best operation of a row: the first position, other than \<open>none\<close>, at which the row
  takes its greatest value over the positions other than \<open>none\<close>.
\<close>

definition best_op :: "nat \<Rightarrow> real list \<Rightarrow> nat \<Rightarrow> bool" where
  "best_op none row k \<longleftrightarrow>
     k < length row \<and> k \<noteq> none
   \<and> (\<forall>k'<length row. k' \<noteq> none \<longrightarrow> row ! k' \<le> row ! k)
   \<and> (\<forall>k'<k. k' \<noteq> none \<longrightarrow> row ! k' < row ! k)"

text \<open>
  The ranking of the source edges of a node by their strengths \<open>S\<close>: the stronger edge
  first and, of two edges of the same strength, the one with the smaller index first.
  The edges \<open>e1\<close> and \<open>e2\<close> are the top two of the \<open>m\<close> edges when \<open>e1\<close> ranks before all the
  others and \<open>e2\<close> before all the others but \<open>e1\<close>.
\<close>

definition ranks_before :: "(nat \<Rightarrow> real) \<Rightarrow> nat \<Rightarrow> nat \<Rightarrow> bool" where
  "ranks_before S a b \<longleftrightarrow> S b < S a \<or> (S a = S b \<and> a < b)"

definition top_two :: "(nat \<Rightarrow> real) \<Rightarrow> nat \<Rightarrow> nat \<Rightarrow> nat \<Rightarrow> bool" where
  "top_two S m e1 e2 \<longleftrightarrow>
     e1 < m \<and> e2 < m \<and> e1 \<noteq> e2
   \<and> (\<forall>x<m. x \<noteq> e1 \<longrightarrow> ranks_before S e1 x)
   \<and> (\<forall>x<m. x \<noteq> e1 \<longrightarrow> x \<noteq> e2 \<longrightarrow> ranks_before S e2 x)"

text \<open>
  A call that takes the world \<open>w\<close> to \<open>w'\<close> has taken a snapshot of the tensor at the
  address \<open>a\<close> when \<open>w'\<close> holds, at an address allocated by the call, a tensor with the
  values that \<open>a\<close> had in \<open>w\<close>.
\<close>

definition snapshot_taken :: "world \<Rightarrow> world \<Rightarrow> addr \<Rightarrow> bool" where
  "snapshot_taken w w' a \<longleftrightarrow>
     (\<exists>b. next_addr w \<le> b \<and> b < next_addr w' \<and> t_data (heap w' b) = t_data (heap w a))"

section \<open>Loops that collect their results\<close>

lemma for_loop_append:
  "for_loop (xs @ ys) s body =
     (case for_loop xs s body of Inl e \<Rightarrow> Inl e | Inr s' \<Rightarrow> for_loop ys s' body)"
  by (induction xs arbitrary: s) (auto split: sum.splits)


lemma for_loop_collect:
  "for_loop xs acc (\<lambda>ops x. case f x of Inl e \<Rightarrow> Inl e | Inr v \<Rightarrow> Inr (ops @ [v])) = Inr r
     \<longleftrightarrow> (\<exists>vs. r = acc @ vs \<and> list_all2 (\<lambda>x v. f x = Inr v) xs vs)"
proof (induction xs arbitrary: acc)
  case Nil
  then show ?case by auto
next
  case (Cons x xs)
  show ?case
  proof (cases "f x")
    case (Inl e)
    then show ?thesis by (simp add: list_all2_Cons1)
  next
    case (Inr v)
    then show ?thesis
      by (simp add: Cons.IH list_all2_Cons1) metis
  qed
qed


lemma edge_offset_0 [simp]: "edge_offset 0 = 0"
  by (simp add: edge_offset_def)

lemma edge_offset_Suc [simp]: "edge_offset (Suc i) = edge_offset i + i + 2"
  by (simp add: edge_offset_def)

lemma edge_offset_double: "2 * edge_offset i = i * (i + 3)"
  by (induction i) (simp_all add: algebra_simps)

lemma edge_offset_closed: "edge_offset i = i * (i + 3) div 2"
  using edge_offset_double[of i] by presburger

lemma edge_offset_mono: "i < n \<Longrightarrow> edge_offset i + i + 2 \<le> edge_offset n"
proof (induction n)
  case 0
  then show ?case by simp
next
  case (Suc n)
  then show ?case by (cases "i = n") auto
qed

lemma sum_list_ones: "sum_list (map (\<lambda>n. Suc 0) xs) = length xs"
  by (induction xs) simp_all

lemma list_all2_upt:
  "list_all2 P [0..<m] vs \<longleftrightarrow> length vs = m \<and> (\<forall>j<m. P j (vs ! j))"
  by (auto simp: list_all2_conv_all_nth)

lemma count_edges_aux:
  "sum_list (concat (map (\<lambda>i. map (\<lambda>n. 1::nat) [0..<nat (2 + int i)]) [0..<m])) = edge_offset m"
  by (induction m) (simp_all add: nat_add_distrib sum_list_ones)

lemma count_edges_offset: "count_edges steps = edge_offset (nat steps)"
  unfolding count_edges_def py_range_def by (rule count_edges_aux)

lemma py_range_nat [simp]: "py_range (int n) = [0..<n]"
  by (simp add: py_range_def)

lemma py_range_2_plus [simp]: "py_range (2 + int i) = [0..<i + 2]"
  by (simp add: py_range_def nat_add_distrib)

lemma Cell_ops_loop:
  assumes "for_loop [0..<n] []
             (\<lambda>ops i. for_loop (py_range (2 + int i)) ops
                (\<lambda>ops j. case M j of Inl e \<Rightarrow> Inl e | Inr op \<Rightarrow> Inr (ops @ [op]))) = Inr ops"
  shows "length ops = edge_offset n
       \<and> (\<forall>i<n. \<forall>j<i + 2. M j = Inr (ops ! (edge_offset i + j)))"
  using assms
proof (induction n arbitrary: ops)
  case 0
  then show ?case by simp
next
  case (Suc n)
  let ?inner = "\<lambda>ops i. for_loop (py_range (2 + int i)) ops
                (\<lambda>ops j. case M j of Inl e \<Rightarrow> Inl e | Inr op \<Rightarrow> Inr (ops @ [op]))"
  from Suc.prems obtain ops0 where
    l0: "for_loop [0..<n] [] ?inner = Inr ops0" and
    l1: "?inner ops0 n = Inr ops"
    by (auto simp: for_loop_append split: sum.splits)
  from Suc.IH[OF l0] have len0: "length ops0 = edge_offset n"
    and ix0: "\<forall>i<n. \<forall>j<i + 2. M j = Inr (ops0 ! (edge_offset i + j))" by auto
  from l1 obtain vs where vs: "ops = ops0 @ vs"
    "list_all2 (\<lambda>j v. M j = Inr v) [0..<n + 2] vs"
    by (auto simp: for_loop_collect)
  from vs(2)[unfolded list_all2_upt] have lvs: "length vs = n + 2"
    and ixn: "\<forall>j<n + 2. M j = Inr (vs ! j)" by blast+
  have "length ops = edge_offset (Suc n)" using vs(1) len0 lvs by simp
  moreover have "\<forall>i<Suc n. \<forall>j<i + 2. M j = Inr (ops ! (edge_offset i + j))"
  proof (intro allI impI)
    fix i j assume i: "i < Suc n" and j: "j < i + 2"
    show "M j = Inr (ops ! (edge_offset i + j))"
    proof (cases "i = n")
      case True
      then show ?thesis using ixn j vs(1) len0 by (simp add: nth_append)
    next
      case False
      with i have "i < n" by simp
      from edge_offset_mono[OF this] j have "edge_offset i + j < length ops0"
        using len0 by simp
      then show ?thesis using ix0 \<open>i < n\<close> j vs(1) by (simp add: nth_append)
    qed
  qed
  ultimately show ?case by blast
qed

lemma InnerCell_ops_loop:
  assumes "for_loop [0..<n] ([], 0)
             (\<lambda>(ops, offset) i.
                case for_loop (py_range (2 + int i)) ops
                       (\<lambda>ops j. case B offset j of Inl e \<Rightarrow> Inl e | Inr op \<Rightarrow> Inr (ops @ [op]))
                of Inl e \<Rightarrow> Inl e
                 | Inr ops \<Rightarrow> Inr (ops, offset + i + 2)) = Inr (ops, offset)"
  shows "offset = edge_offset n \<and> length ops = edge_offset n
       \<and> (\<forall>i<n. \<forall>j<i + 2. B (edge_offset i) j = Inr (ops ! (edge_offset i + j)))"
  using assms
proof (induction n arbitrary: ops offset)
  case 0
  then show ?case by simp
next
  case (Suc n)
  let ?body = "\<lambda>(ops, offset) i.
                case for_loop (py_range (2 + int i)) ops
                       (\<lambda>ops j. case B offset j of Inl e \<Rightarrow> Inl e | Inr op \<Rightarrow> Inr (ops @ [op]))
                of Inl e \<Rightarrow> Inl e
                 | Inr ops \<Rightarrow> Inr (ops, offset + i + 2)"
  from Suc.prems obtain ops0 offset0 where
    l0: "for_loop [0..<n] ([], 0) ?body = Inr (ops0, offset0)" and
    l1: "?body (ops0, offset0) n = Inr (ops, offset)"
    by (auto simp: for_loop_append split: sum.splits)
  from Suc.IH[OF l0] have off0: "offset0 = edge_offset n"
    and len0: "length ops0 = edge_offset n"
    and ix0: "\<forall>i<n. \<forall>j<i + 2. B (edge_offset i) j = Inr (ops0 ! (edge_offset i + j))"
    by auto
  from l1 obtain vs where vs: "ops = ops0 @ vs"
    "list_all2 (\<lambda>j v. B offset0 j = Inr v) [0..<n + 2] vs" and off: "offset = offset0 + n + 2"
    by (auto simp: for_loop_collect split: sum.splits)
  from vs(2)[unfolded list_all2_upt] have lvs: "length vs = n + 2"
    and ixn: "\<forall>j<n + 2. B offset0 j = Inr (vs ! j)" by blast+
  have "length ops = edge_offset (Suc n)" using vs(1) len0 lvs by simp
  moreover have "offset = edge_offset (Suc n)" using off off0 by simp
  moreover have "\<forall>i<Suc n. \<forall>j<i + 2. B (edge_offset i) j = Inr (ops ! (edge_offset i + j))"
  proof (intro allI impI)
    fix i j assume i: "i < Suc n" and j: "j < i + 2"
    show "B (edge_offset i) j = Inr (ops ! (edge_offset i + j))"
    proof (cases "i = n")
      case True
      then show ?thesis using ixn j vs(1) len0 off0 by (simp add: nth_append)
    next
      case False
      with i have "i < n" by simp
      from edge_offset_mono[OF this] j have "edge_offset i + j < length ops0"
        using len0 by simp
      then show ?thesis using ix0 \<open>i < n\<close> j vs(1) by (simp add: nth_append)
    qed
  qed
  ultimately show ?case by blast
qed

lemma edge_decompose:
  "e < edge_offset n \<Longrightarrow> \<exists>i<n. \<exists>j<i + 2. e = edge_offset i + j"
proof (induction n)
  case 0
  then show ?case by simp
next
  case (Suc n)
  show ?case
  proof (cases "e < edge_offset n")
    case True
    with Suc.IH obtain i j where "i < n" "j < i + 2" "e = edge_offset i + j" by blast
    then show ?thesis using less_Suc_eq by blast
  next
    case False
    with Suc.prems have "e - edge_offset n < n + 2" "e = edge_offset n + (e - edge_offset n)"
      by simp_all
    then show ?thesis by blast
  qed
qed

lemma MixedOp_init_ops:
  assumes "MixedOp_init PRIMITIVES keys C stride = Inr m"
  shows "length (mixed_ops m) = length PRIMITIVES
       \<and> (\<forall>k<length PRIMITIVES. make_op keys (PRIMITIVES ! k) C stride = Inr (mixed_ops m ! k))"
  using assms unfolding MixedOp_init_def
  by (auto simp: for_loop_collect list_all2_conv_all_nth split: sum.splits)

lemma make_op_stride:
  "make_op keys primitive C stride = Inr op \<Longrightarrow> op_stride op = Some stride"
  by (auto simp: make_op_def OPS_def split: if_splits)

lemma MixedOp_init_stride:
  assumes "MixedOp_init PRIMITIVES keys C stride = Inr m" and "op \<in> set (mixed_ops m)"
  shows "op_stride op = Some stride"
proof -
  from assms(2) obtain k where k: "k < length (mixed_ops m)" "op = mixed_ops m ! k"
    by (auto simp: in_set_conv_nth)
  with MixedOp_init_ops[OF assms(1)] have "make_op keys (PRIMITIVES ! k) C stride = Inr op"
    by simp
  then show ?thesis by (rule make_op_stride)
qed

lemma Cell_init_ops:
  assumes "Cell_init PRIMITIVES keys steps multiplier C_prev_prev C_prev C reduction reduction_prev
             = Inr cell"
  shows "length (cell_ops cell) = edge_offset (nat steps)
       \<and> (\<forall>i<nat steps. \<forall>j<i + 2.
            MixedOp_init PRIMITIVES keys C (edge_stride reduction j)
              = Inr (cell_ops cell ! (edge_offset i + j)))"
proof -
  from assms obtain ops where
    l: "for_loop [0..<nat steps] []
          (\<lambda>ops i. for_loop (py_range (2 + int i)) ops
             (\<lambda>ops j. case MixedOp_init PRIMITIVES keys C (edge_stride reduction j) of
                         Inl e \<Rightarrow> Inl e | Inr op \<Rightarrow> Inr (ops @ [op]))) = Inr ops"
    and c: "cell_ops cell = ops"
    unfolding Cell_init_def py_range_def[of steps] by (auto split: sum.splits)
  from Cell_ops_loop[OF l] c show ?thesis by simp
qed

lemma InnerCell_init_ops:
  assumes "InnerCell_init keys steps multiplier C_prev_prev C_prev C reduction reduction_prev weights
             = Inr cell"
  shows "length (cell_ops cell) = edge_offset (nat steps)
       \<and> (\<forall>i<nat steps. \<forall>j<i + 2.
            InnerCell_edge keys C reduction weights (edge_offset i) j
              = Inr (cell_ops cell ! (edge_offset i + j)))"
proof -
  from assms obtain ops offset where
    l: "for_loop [0..<nat steps] ([], 0)
             (\<lambda>(ops, offset) i.
                case for_loop (py_range (2 + int i)) ops
                       (\<lambda>ops j. case InnerCell_edge keys C reduction weights offset j of
                                   Inl e \<Rightarrow> Inl e | Inr op \<Rightarrow> Inr (ops @ [op]))
                of Inl e \<Rightarrow> Inl e
                 | Inr ops \<Rightarrow> Inr (ops, offset + i + 2)) = Inr (ops, offset)"
    and c: "cell_ops cell = ops"
    unfolding InnerCell_init_def py_range_def[of steps] by (auto split: sum.splits)
  from InnerCell_ops_loop[OF l] c show ?thesis by simp
qed

section \<open>The stride of the edges\<close>

text \<open>
  Claim C3.  In a cell built by \<^verbatim>\<open>Cell.__init__\<close>, the MixedOp on the edge into node \<open>i\<close>
  from source \<open>j\<close> (position \<open>edge_offset i + j\<close> of \<^verbatim>\<open>self._ops\<close>) is the one constructed
  with stride 2 if the cell is a reduction cell and \<open>j < 2\<close>, and with stride 1 otherwise,
  and every operation in it carries that stride.  The operation that
  \<^verbatim>\<open>InnerCell.__init__\<close> puts on the edge carries the same stride.  Every position of
  \<^verbatim>\<open>self._ops\<close> is such an edge.
\<close>

theorem C3_edge_stride:
  "(Cell_init PRIMITIVES keys steps multiplier C_prev_prev C_prev C reduction reduction_prev
      = Inr cell \<longrightarrow>
      length (cell_ops cell) = edge_offset (nat steps) \<and>
      (\<forall>i<nat steps. \<forall>j<i + 2.
         MixedOp_init PRIMITIVES keys C (if reduction \<and> j < 2 then 2 else 1)
           = Inr (cell_ops cell ! (edge_offset i + j)) \<and>
         (\<forall>op\<in>set (mixed_ops (cell_ops cell ! (edge_offset i + j))).
            op_stride op = Some (if reduction \<and> j < 2 then 2 else 1)))) \<and>
   (InnerCell_init keys steps multiplier C_prev_prev C_prev C reduction reduction_prev weights
      = Inr icell \<longrightarrow>
      length (cell_ops icell) = edge_offset (nat steps) \<and>
      (\<forall>i<nat steps. \<forall>j<i + 2.
         op_stride (cell_ops icell ! (edge_offset i + j))
           = Some (if reduction \<and> j < 2 then 2 else 1))) \<and>
   (\<forall>e<edge_offset (nat steps). \<exists>i<nat steps. \<exists>j<i + 2. e = edge_offset i + j)"
proof (intro conjI impI)
  assume a: "Cell_init PRIMITIVES keys steps multiplier C_prev_prev C_prev C reduction
               reduction_prev = Inr cell"
  from Cell_init_ops[OF a] show "length (cell_ops cell) = edge_offset (nat steps)" by simp
  show "\<forall>i<nat steps. \<forall>j<i + 2.
         MixedOp_init PRIMITIVES keys C (if reduction \<and> j < 2 then 2 else 1)
           = Inr (cell_ops cell ! (edge_offset i + j)) \<and>
         (\<forall>op\<in>set (mixed_ops (cell_ops cell ! (edge_offset i + j))).
            op_stride op = Some (if reduction \<and> j < 2 then 2 else 1))"
  proof (intro allI impI)
    fix i j assume ij: "i < nat steps" "j < i + 2"
    with Cell_init_ops[OF a] have m: "MixedOp_init PRIMITIVES keys C (edge_stride reduction j)
           = Inr (cell_ops cell ! (edge_offset i + j))" by blast
    have e: "edge_stride reduction j = (if reduction \<and> j < 2 then 2 else 1)"
      by (simp add: edge_stride_def)
    from m MixedOp_init_stride[OF m] show "MixedOp_init PRIMITIVES keys C (if reduction \<and> j < 2 then 2 else 1)
           = Inr (cell_ops cell ! (edge_offset i + j)) \<and>
         (\<forall>op\<in>set (mixed_ops (cell_ops cell ! (edge_offset i + j))).
            op_stride op = Some (if reduction \<and> j < 2 then 2 else 1))"
      unfolding e by blast
  qed
next
  assume a: "InnerCell_init keys steps multiplier C_prev_prev C_prev C reduction reduction_prev
               weights = Inr icell"
  from InnerCell_init_ops[OF a] show "length (cell_ops icell) = edge_offset (nat steps)" by simp
  show "\<forall>i<nat steps. \<forall>j<i + 2.
         op_stride (cell_ops icell ! (edge_offset i + j))
           = Some (if reduction \<and> j < 2 then 2 else 1)"
  proof (intro allI impI)
    fix i j assume ij: "i < nat steps" "j < i + 2"
    with InnerCell_init_ops[OF a]
    have m: "InnerCell_edge keys C reduction weights (edge_offset i) j
               = Inr (cell_ops icell ! (edge_offset i + j))" by blast
    then obtain choice where
      "make_op keys choice C (edge_stride reduction j) = Inr (cell_ops icell ! (edge_offset i + j))"
      by (auto simp: InnerCell_edge_def split: sum.splits)
    from make_op_stride[OF this]
    show "op_stride (cell_ops icell ! (edge_offset i + j))
           = Some (if reduction \<and> j < 2 then 2 else 1)"
      by (simp add: edge_stride_def)
  qed
next
  show "\<forall>e<edge_offset (nat steps). \<exists>i<nat steps. \<exists>j<i + 2. e = edge_offset i + j"
    using edge_decompose by blast
qed

theorem C3_edge_stride_witness:
  "Cell_init [''max_pool_3x3''] [''max_pool_3x3''] 2 2 16 16 8 True False
     = Inr \<lparr>cell_reduction = True,
            cell_preprocess0 = ReLUConvBN 16 8 1 1 0 False,
            cell_preprocess1 = ReLUConvBN 16 8 1 1 0 False,
            cell_steps = 2, cell_multiplier = 2,
            cell_ops =
              [MixedOp [Sequential [Operation ''max_pool_3x3'' 8 2 False, BatchNorm2d 8 False]],
               MixedOp [Sequential [Operation ''max_pool_3x3'' 8 2 False, BatchNorm2d 8 False]],
               MixedOp [Sequential [Operation ''max_pool_3x3'' 8 2 False, BatchNorm2d 8 False]],
               MixedOp [Sequential [Operation ''max_pool_3x3'' 8 2 False, BatchNorm2d 8 False]],
               MixedOp [Sequential [Operation ''max_pool_3x3'' 8 1 False, BatchNorm2d 8 False]]]\<rparr>
   \<and> op_stride (Sequential [Operation ''max_pool_3x3'' 8 2 False, BatchNorm2d 8 False]) = Some 2
   \<and> op_stride (Sequential [Operation ''max_pool_3x3'' 8 1 False, BatchNorm2d 8 False]) = Some 1
   \<and> InnerCell_init [''max_pool_3x3''] 2 2 16 16 8 True False [[1], [1], [1], [1], [1]]
     = Inr \<lparr>cell_reduction = True,
            cell_preprocess0 = ReLUConvBN 16 8 1 1 0 False,
            cell_preprocess1 = ReLUConvBN 16 8 1 1 0 False,
            cell_steps = 2, cell_multiplier = 2,
            cell_ops =
              [Sequential [Operation ''max_pool_3x3'' 8 2 False, BatchNorm2d 8 False],
               Sequential [Operation ''max_pool_3x3'' 8 2 False, BatchNorm2d 8 False],
               Sequential [Operation ''max_pool_3x3'' 8 2 False, BatchNorm2d 8 False],
               Sequential [Operation ''max_pool_3x3'' 8 2 False, BatchNorm2d 8 False],
               Sequential [Operation ''max_pool_3x3'' 8 1 False, BatchNorm2d 8 False]]\<rparr>
   \<and> (4::nat) = edge_offset 1 + 2"
  (is "?c = Inr ?cell \<and> ?s2 \<and> ?s1 \<and> ?ic = Inr ?icell \<and> ?e")
proof -
  have h: "?c = Inr ?cell" by code_simp
  have hi: "?ic = Inr ?icell" by code_simp
  have e: "edge_offset 1 + 2 = 4" "edge_offset 1 + 1 = 3" by (simp_all add: edge_offset_def)
  note T = C3_edge_stride[of "[''max_pool_3x3'']" "[''max_pool_3x3'']" 2 2 16 16 8 True False
      ?cell "[[1], [1], [1], [1], [1]]" ?icell]
  from T h have "\<forall>i<nat 2. \<forall>j<i + 2.
      \<forall>op\<in>set (mixed_ops (cell_ops ?cell ! (edge_offset i + j))).
        op_stride op = Some (if True \<and> j < 2 then 2 else 1)" by blast
  then have "\<forall>op\<in>set (mixed_ops (cell_ops ?cell ! (edge_offset 1 + 2))).
        op_stride op = Some (if True \<and> (2::nat) < 2 then 2 else 1)" by simp
  then have s1: ?s1 unfolding e by simp
  from T hi have "\<forall>i<nat 2. \<forall>j<i + 2.
      op_stride (cell_ops ?icell ! (edge_offset i + j)) = Some (if True \<and> j < 2 then 2 else 1)"
    by blast
  then have "op_stride (cell_ops ?icell ! (edge_offset 1 + 1))
      = Some (if True \<and> (1::nat) < 2 then 2 else 1)" by simp
  then have s2: ?s2 unfolding e by simp
  have ?e using e by simp
  with h hi s1 s2 show ?thesis by blast
qed

section \<open>The architecture-weight tables\<close>

lemma build_cells_loop:
  assumes "for_loop xs (a, b, c, cells0, rp)
             (\<lambda>(C_prev_prev, C_prev, C_curr, cells, reduction_prev) i.
                let reduction = R i;
                    C_curr = (if reduction then C_curr * 2 else C_curr)
                in case mk C_prev_prev C_prev C_curr reduction reduction_prev of
                     Inl e \<Rightarrow> Inl e
                   | Inr cell \<Rightarrow>
                       Inr (C_prev, m * C_curr, C_curr, cells @ [cell], reduction))
           = Inr (a', b', c', cells, rp')"
  shows "\<exists>new. cells = cells0 @ new \<and> length new = length xs
           \<and> (\<forall>x\<in>set new. \<exists>p q r s t. mk p q r s t = Inr x)"
  using assms
proof (induction xs arbitrary: a b c cells0 rp)
  case Nil
  then show ?case by simp
next
  case (Cons i xs)
  let ?c = "if R i then c * 2 else c"
  from Cons.prems obtain cell where
    mk: "mk a b ?c (R i) rp = Inr cell" and
    rest: "for_loop xs (b, m * ?c, ?c, cells0 @ [cell], R i)
             (\<lambda>(C_prev_prev, C_prev, C_curr, cells, reduction_prev) i.
                let reduction = R i;
                    C_curr = (if reduction then C_curr * 2 else C_curr)
                in case mk C_prev_prev C_prev C_curr reduction reduction_prev of
                     Inl e \<Rightarrow> Inl e
                   | Inr cell \<Rightarrow>
                       Inr (C_prev, m * C_curr, C_curr, cells @ [cell], reduction))
           = Inr (a', b', c', cells, rp')"
    by (auto simp: Let_def split: sum.splits)
  from Cons.IH[OF rest] obtain new where
    new: "cells = (cells0 @ [cell]) @ new" "length new = length xs"
      "\<forall>x\<in>set new. \<exists>p q r s t. mk p q r s t = Inr x" by blast
  have "\<exists>p q r s t. mk p q r s t = Inr cell" using mk by blast
  then have "cells = cells0 @ (cell # new) \<and> length (cell # new) = length (i # xs)
      \<and> (\<forall>x\<in>set (cell # new). \<exists>p q r s t. mk p q r s t = Inr x)"
    using new by auto
  then show ?case by blast
qed

lemma build_cells_cells:
  assumes "build_cells layers multiplier stem_multiplier C mk = Inr (cells, C_prev)"
  shows "length cells = nat layers \<and> (\<forall>x\<in>set cells. \<exists>p q r s t. mk p q r s t = Inr x)"
proof -
  from assms obtain a' b' c' rp' where
    "for_loop (py_range layers) (stem_multiplier * C, stem_multiplier * C, C, [], False)
       (\<lambda>(C_prev_prev, C_prev, C_curr, cells, reduction_prev) i.
          let reduction = (int i = layers div 3 \<or> int i = 2 * layers div 3);
              C_curr = (if reduction then C_curr * 2 else C_curr)
          in case mk C_prev_prev C_prev C_curr reduction reduction_prev of
               Inl e \<Rightarrow> Inl e
             | Inr cell \<Rightarrow>
                 Inr (C_prev, multiplier * C_curr, C_curr, cells @ [cell], reduction))
       = Inr (a', b', c', cells, rp')"
    unfolding build_cells_def Let_def by (auto split: sum.splits)
  from build_cells_loop[where R = "\<lambda>i. int i = layers div 3 \<or> int i = 2 * layers div 3", OF this]
  show ?thesis by (auto simp: py_range_def)
qed

lemma randn_shape:
  "t_rows (scale a (randn k n z)) = k" "t_cols (scale a (randn k n z)) = n"
  "length (t_data (scale a (randn k n z))) = k"
  "row \<in> set (t_data (scale a (randn k n z))) \<Longrightarrow> length row = n"
  by (auto simp: scale_def randn_def)

lemma initialize_alphas_heap:
  assumes "initialize_alphas PRIMITIVES steps z_normal z_reduce w = ((an, ar, hn, hr), w')"
  shows "an = next_addr w" "ar = Suc (next_addr w)"
    "heap w' an = scale (1 / 1000) (randn (count_edges steps) (length PRIMITIVES) z_normal)"
    "heap w' ar = scale (1 / 1000) (randn (count_edges steps) (length PRIMITIVES) z_reduce)"
  using assms by (auto simp: initialize_alphas_def alloc_def Let_def)


lemma edge_offset_int:
  assumes "0 \<le> steps"
  shows "int (edge_offset (nat steps)) = steps * (steps + 3) div 2"
proof -
  have "int (edge_offset (nat steps)) = int (nat steps * (nat steps + 3) div 2)"
    by (simp only: edge_offset_closed)
  also have "\<dots> = int (nat steps) * (int (nat steps) + 3) div 2"
    by (simp add: zdiv_int)
  finally show ?thesis using assms by simp
qed

lemma Network_init_parts:
  assumes "Network_init cls PRIMITIVES keys C num_classes layers criterion device
             steps multiplier stem_multiplier z_normal z_reduce w = Inr (net, w')"
  shows "\<exists>cells C_prev hn hr.
           build_cells layers multiplier stem_multiplier C
             (\<lambda>C_prev_prev C_prev C_curr reduction reduction_prev.
                Cell_init PRIMITIVES keys steps multiplier C_prev_prev C_prev C_curr
                  reduction reduction_prev) = Inr (cells, C_prev)
         \<and> initialize_alphas PRIMITIVES steps z_normal z_reduce w
             = ((alphas_normal net, alphas_reduce net, hn, hr), w')
         \<and> net_cells net = cells \<and> net_steps net = steps \<and> net_multiplier net = multiplier
         \<and> net_stem_multiplier net = stem_multiplier \<and> net_C net = C
         \<and> net_num_classes net = num_classes \<and> net_layers net = layers
         \<and> net_class net = cls \<and> net_criterion net = criterion \<and> net_device net = device"
  using assms unfolding Network_init_def
  by (auto split: sum.splits prod.splits)

text \<open>
  Claim C4.  For \<open>steps \<ge> 0\<close>, a network that \<^verbatim>\<open>Network.__init__\<close> (or \<^verbatim>\<open>EMNIST.__init__\<close>)
  has built owns exactly two architecture-weight tables, at two different fresh
  addresses; each has \<open>\<Sum>i<steps. (i + 2) = steps * (steps + 3) div 2\<close> rows (14 for
  \<open>steps = 4\<close>) of \<open>|PRIMITIVES|\<close> columns, and every cell of the network holds that many
  MixedOps.
\<close>

theorem C4_alphas_shape:
  assumes "0 \<le> steps"
    and "Network_init cls PRIMITIVES keys C num_classes layers criterion device
           steps multiplier stem_multiplier z_normal z_reduce w = Inr (net, w')"
  shows "length (arch_parameters net) = 2 \<and> distinct (arch_parameters net)
       \<and> (\<forall>a\<in>set (arch_parameters net).
            next_addr w \<le> a
          \<and> t_rows (heap w' a) = (\<Sum>i<nat steps. i + 2)
          \<and> int (t_rows (heap w' a)) = steps * (steps + 3) div 2
          \<and> t_cols (heap w' a) = length PRIMITIVES
          \<and> length (t_data (heap w' a)) = t_rows (heap w' a)
          \<and> (\<forall>row\<in>set (t_data (heap w' a)). length row = length PRIMITIVES))
       \<and> (\<forall>c\<in>set (net_cells net). length (cell_ops c) = (\<Sum>i<nat steps. i + 2))
       \<and> (steps = 4 \<longrightarrow> (\<Sum>i<nat steps. i + 2) = (14::nat))"
proof -
  from Network_init_parts[OF assms(2)] obtain cells C_prev hn hr where
    b: "build_cells layers multiplier stem_multiplier C
             (\<lambda>C_prev_prev C_prev C_curr reduction reduction_prev.
                Cell_init PRIMITIVES keys steps multiplier C_prev_prev C_prev C_curr
                  reduction reduction_prev) = Inr (cells, C_prev)"
    and i: "initialize_alphas PRIMITIVES steps z_normal z_reduce w
             = ((alphas_normal net, alphas_reduce net, hn, hr), w')"
    and c: "net_cells net = cells" by blast
  note h = initialize_alphas_heap[OF i]
  have k: "count_edges steps = (\<Sum>i<nat steps. i + 2)"
    by (simp add: count_edges_offset edge_offset_def)
  have ki: "int (\<Sum>i<nat steps. i + 2) = steps * (steps + 3) div 2"
    using edge_offset_int[OF assms(1)] by (simp add: edge_offset_def)
  have p1: "length (arch_parameters net) = 2 \<and> distinct (arch_parameters net)"
    using h(1,2) by (simp add: arch_parameters_def)
  have p2: "\<forall>a\<in>set (arch_parameters net).
            next_addr w \<le> a
          \<and> t_rows (heap w' a) = (\<Sum>i<nat steps. i + 2)
          \<and> int (t_rows (heap w' a)) = steps * (steps + 3) div 2
          \<and> t_cols (heap w' a) = length PRIMITIVES
          \<and> length (t_data (heap w' a)) = t_rows (heap w' a)
          \<and> (\<forall>row\<in>set (t_data (heap w' a)). length row = length PRIMITIVES)"
  proof
    fix a assume "a \<in> set (arch_parameters net)"
    then have "a = alphas_normal net \<or> a = alphas_reduce net"
      by (simp add: arch_parameters_def)
    then show "next_addr w \<le> a
          \<and> t_rows (heap w' a) = (\<Sum>i<nat steps. i + 2)
          \<and> int (t_rows (heap w' a)) = steps * (steps + 3) div 2
          \<and> t_cols (heap w' a) = length PRIMITIVES
          \<and> length (t_data (heap w' a)) = t_rows (heap w' a)
          \<and> (\<forall>row\<in>set (t_data (heap w' a)). length row = length PRIMITIVES)"
      using h randn_shape ki k by (elim disjE) (simp_all only: le_refl le_SucI, simp_all)
  qed
  have p3: "\<forall>c\<in>set (net_cells net). length (cell_ops c) = (\<Sum>i<nat steps. i + 2)"
  proof
    fix x assume "x \<in> set (net_cells net)"
    with build_cells_cells[OF b] c obtain p q r s t where
      "Cell_init PRIMITIVES keys steps multiplier p q r s t = Inr x" by blast
    from Cell_init_ops[OF this] show "length (cell_ops x) = (\<Sum>i<nat steps. i + 2)"
      by (simp add: edge_offset_def)
  qed
  have p4: "steps = 4 \<longrightarrow> (\<Sum>i<nat steps. i + 2) = (14::nat)"
    by (simp add: eval_nat_numeral)
  from p1 p2 p3 p4 show ?thesis by blast
qed


theorem C4_alphas_shape_witness:
  "\<exists>net w'.
     Network_init Network [''none'', ''skip_connect''] [''none'', ''skip_connect''] 4 10 2 0 ''cpu''
       4 4 3 (\<lambda>r c. 1) (\<lambda>r c. 2) \<lparr>heap = \<lambda>a. Tensor 0 0 [], next_addr = 0\<rparr> = Inr (net, w')
   \<and> t_rows (heap w' (alphas_normal net)) = 14 \<and> t_cols (heap w' (alphas_normal net)) = 2
   \<and> t_rows (heap w' (alphas_reduce net)) = 14 \<and> t_cols (heap w' (alphas_reduce net)) = 2
   \<and> alphas_normal net \<noteq> alphas_reduce net
   \<and> length (net_cells net) = 2
   \<and> (\<forall>c\<in>set (net_cells net). length (cell_ops c) = 14)"
proof -
  let ?r = "Network_init Network [''none'', ''skip_connect''] [''none'', ''skip_connect'']
       4 10 2 0 ''cpu'' 4 4 3 (\<lambda>r c. 1) (\<lambda>r c. 2) \<lparr>heap = \<lambda>a. Tensor 0 0 [], next_addr = 0\<rparr>"
  have "\<not> isl ?r" by code_simp
  then obtain net w' where r: "?r = Inr (net, w')" by (cases ?r) auto
  have s: "(0::int) \<le> 4" by simp
  note T = C4_alphas_shape[OF s r]
  have a: "alphas_normal net \<in> set (arch_parameters net)"
    "alphas_reduce net \<in> set (arch_parameters net)" by (simp_all add: arch_parameters_def)
  have k: "(\<Sum>i<nat 4. i + 2) = (14::nat)" using T by simp
  from T a k have "t_rows (heap w' (alphas_normal net)) = 14"
    "t_cols (heap w' (alphas_normal net)) = 2"
    "t_rows (heap w' (alphas_reduce net)) = 14" "t_cols (heap w' (alphas_reduce net)) = 2"
    by auto
  moreover from T have "alphas_normal net \<noteq> alphas_reduce net"
    by (simp add: arch_parameters_def)
  moreover from T k have "\<forall>c\<in>set (net_cells net). length (cell_ops c) = 14" by simp
  moreover have "length (net_cells net) = 2"
    using Network_init_parts[OF r] build_cells_cells by fastforce
  ultimately show ?thesis using r by blast
qed

section \<open>The concat range of the genotype\<close>

lemma upto_shift: "map (\<lambda>i. i + k) [a..b] = [a + k..b + k]"
proof (induction a b rule: upto.induct)
  case (1 a b)
  show ?case
  proof (cases "a \<le> b")
    case True
    then have "[a..b] = a # [a + 1..b]" "[a + k..b + k] = (a + k) # [a + k + 1..b + k]"
      by (simp_all add: upto_rec1)
    with 1 True show ?thesis by (simp add: add.commute add.left_commute)
  next
    case False
    then show ?thesis by simp
  qed
qed

text \<open>
  Claim C5.  The genotype that \<^verbatim>\<open>genotype\<close> returns carries, for the normal and for the
  reduce cells alike, the integers of \<^verbatim>\<open>range(2 + steps - multiplier, steps + 2)\<close>: the
  indices \<open>steps - multiplier, \<dots>, steps - 1\<close> of the last \<open>multiplier\<close> intermediate
  nodes, each shifted by 2 for the two inputs.
\<close>

theorem C5_concat_range:
  assumes "genotype_of softmax PRIMITIVES self w = Inr ((g, cnn_normal, cnn_reduce), w')"
  shows "normal_concat g = [2 + net_steps self - net_multiplier self..net_steps self + 2 - 1]
       \<and> normal_concat g
           = map (\<lambda>i. i + 2) [net_steps self - net_multiplier self..net_steps self - 1]
       \<and> reduce_concat g = normal_concat g
       \<and> (\<forall>x. x \<in> set (normal_concat g)
              \<longleftrightarrow> 2 + net_steps self - net_multiplier self \<le> x \<and> x < net_steps self + 2)
       \<and> (0 \<le> net_multiplier self \<longrightarrow> int (length (normal_concat g)) = net_multiplier self)"
proof -
  from assms have n: "normal_concat g
      = py_range2 (2 + net_steps self - net_multiplier self) (net_steps self + 2)"
    and r: "reduce_concat g = normal_concat g"
    unfolding genotype_of_def by (auto simp: Let_def split: sum.splits)
  have m: "map (\<lambda>i. i + 2) [net_steps self - net_multiplier self..net_steps self - 1]
      = [2 + net_steps self - net_multiplier self..net_steps self + 2 - 1]"
    unfolding upto_shift by (simp add: algebra_simps)
  show ?thesis using n r m by (auto simp: py_range2_def)
qed

theorem C5_concat_range_witness:
  "\<exists>net w1 g cnn_normal cnn_reduce w2.
     Network_init Network [''none'', ''skip_connect''] [''none'', ''skip_connect''] 4 10 2 0 ''cpu''
       4 3 3 (\<lambda>r c. 1) (\<lambda>r c. 2) \<lparr>heap = \<lambda>a. Tensor 0 0 [], next_addr = 0\<rparr> = Inr (net, w1)
   \<and> genotype_of (\<lambda>row. row) [''none'', ''skip_connect''] net w1
       = Inr ((g, cnn_normal, cnn_reduce), w2)
   \<and> normal_concat g = [3, 4, 5] \<and> reduce_concat g = [3, 4, 5]"
proof -
  let ?r = "Network_init Network [''none'', ''skip_connect''] [''none'', ''skip_connect'']
       4 10 2 0 ''cpu'' 4 3 3 (\<lambda>r c. 1) (\<lambda>r c. 2) \<lparr>heap = \<lambda>a. Tensor 0 0 [], next_addr = 0\<rparr>"
  let ?g = "genotype_of (\<lambda>row. row) [''none'', ''skip_connect'']
              (fst (projr ?r)) (snd (projr ?r))"
  have "\<not> isl ?r" by code_simp
  then have r: "?r = Inr (fst (projr ?r), snd (projr ?r))" by (cases ?r) auto
  have "\<not> isl ?g" by code_simp
  then obtain g cn cr w2 where g: "?g = Inr ((g, cn, cr), w2)" by (cases ?g) auto
  have s: "net_steps (fst (projr ?r)) = 4" "net_multiplier (fst (projr ?r)) = 3"
    using Network_init_parts[OF r] by auto
  have "[3..(5::int)] = [3, 4, 5]" by code_simp
  with C5_concat_range[OF g] s have "normal_concat g = [3, 4, 5] \<and> reduce_concat g = [3, 4, 5]"
    by simp
  with r g show ?thesis by blast
qed

section \<open>The mixed operation\<close>

lemma MixedOp_fold:
  "foldl (\<lambda>(acc, called) (w, op). (acc + w *\<^sub>R run op x, called @ [op])) (a, c) ps
     = (a + sum_list (map (\<lambda>(w, op). w *\<^sub>R run op x) ps), c @ map snd ps)"
  by (induction ps arbitrary: a c) (auto simp: add.assoc)

lemma MixedOp_forward_sum:
  assumes "length weights = length (mixed_ops self)"
  shows "fst (MixedOp_forward run self x weights)
           = (\<Sum>k<length (mixed_ops self). (weights ! k) *\<^sub>R run (mixed_ops self ! k) x)"
    and "snd (MixedOp_forward run self x weights) = mixed_ops self"
proof -
  let ?ps = "zip weights (mixed_ops self)"
  have "sum_list (map (\<lambda>(w, op). w *\<^sub>R run op x) ?ps)
      = (\<Sum>k = 0..<length ?ps. map (\<lambda>(w, op). w *\<^sub>R run op x) ?ps ! k)"
    by (simp add: sum_list_sum_nth)
  also have "\<dots> = (\<Sum>k<length (mixed_ops self). (weights ! k) *\<^sub>R run (mixed_ops self ! k) x)"
    using assms by (simp add: atLeast0LessThan)
  finally show "fst (MixedOp_forward run self x weights)
           = (\<Sum>k<length (mixed_ops self). (weights ! k) *\<^sub>R run (mixed_ops self ! k) x)"
    by (simp add: MixedOp_forward_def MixedOp_fold)
  show "snd (MixedOp_forward run self x weights) = mixed_ops self"
    using assms by (simp add: MixedOp_forward_def MixedOp_fold)
qed

lemma one_hot_sum:
  fixes f :: "nat \<Rightarrow> 't::real_vector"
  assumes "k < n"
  shows "(\<Sum>j<n. ((replicate n (0::real))[k := 1] ! j) *\<^sub>R f j) = f k"
proof -
  have "(\<Sum>j<n. ((replicate n (0::real))[k := 1] ! j) *\<^sub>R f j)
      = (\<Sum>j<n. if j = k then f j else 0)"
    by (rule sum.cong) (auto simp: nth_list_update)
  also have "\<dots> = f k" using assms by simp
  finally show ?thesis .
qed

text \<open>
  Claim C6.  For a MixedOp built by \<^verbatim>\<open>MixedOp.__init__\<close> and a weight vector with one
  weight for every primitive, \<^verbatim>\<open>MixedOp.forward\<close> returns the sum over all \<open>k\<close> of
  \<open>weights[k] * operation_k(x)\<close>, where \<open>operation_k\<close> is the operation built for the
  \<open>k\<close>-th primitive; it calls every operation once, in order, whatever the weights are;
  and for the weight vector that is 1 at \<open>k\<close> and 0 elsewhere the result is
  \<open>operation_k(x)\<close>.
\<close>

theorem C6_mixed_forward:
  assumes "MixedOp_init PRIMITIVES keys C stride = Inr self"
    and "length weights = length PRIMITIVES"
  shows "fst (MixedOp_forward run self x weights)
           = (\<Sum>k<length PRIMITIVES. (weights ! k) *\<^sub>R run (mixed_ops self ! k) x)
       \<and> snd (MixedOp_forward run self x weights) = mixed_ops self
       \<and> length (mixed_ops self) = length PRIMITIVES
       \<and> (\<forall>k<length PRIMITIVES.
            make_op keys (PRIMITIVES ! k) C stride = Inr (mixed_ops self ! k)
          \<and> (weights = (replicate (length PRIMITIVES) 0)[k := 1] \<longrightarrow>
               fst (MixedOp_forward run self x weights) = run (mixed_ops self ! k) x))"
proof -
  note m = MixedOp_init_ops[OF assms(1)]
  from m assms(2) have l: "length weights = length (mixed_ops self)" by simp
  note f = MixedOp_forward_sum[OF l, of run x]
  have "\<forall>k<length PRIMITIVES.
          weights = (replicate (length PRIMITIVES) 0)[k := 1] \<longrightarrow>
            fst (MixedOp_forward run self x weights) = run (mixed_ops self ! k) x"
  proof (intro allI impI)
    fix k assume k: "k < length PRIMITIVES"
      and w: "weights = (replicate (length PRIMITIVES) 0)[k := 1]"
    show "fst (MixedOp_forward run self x weights) = run (mixed_ops self ! k) x"
      unfolding f(1) using m one_hot_sum[OF k, of "\<lambda>j. run (mixed_ops self ! j) x"] w
      by simp
  qed
  with f m show ?thesis by simp
qed

theorem C6_mixed_forward_witness:
  "MixedOp_init [''none'', ''skip_connect''] [''skip_connect'', ''none''] 8 1
     = Inr (MixedOp [Operation ''none'' 8 1 False, Operation ''skip_connect'' 8 1 False])
   \<and> length [0, 1 :: real] = length [''none'', ''skip_connect'']
   \<and> MixedOp_forward (\<lambda>m t. case m of Operation n c s a \<Rightarrow> (if n = ''none'' then 0 else t) | _ \<Rightarrow> t)
        (MixedOp [Operation ''none'' 8 1 False, Operation ''skip_connect'' 8 1 False])
        (5::real) [0, 1]
     = (5, [Operation ''none'' 8 1 False, Operation ''skip_connect'' 8 1 False])"
  (is "?i = Inr ?m \<and> ?l \<and> MixedOp_forward ?run ?m ?x ?w = ?res")
proof -
  have i: "?i = Inr ?m" by code_simp
  have l: ?l by simp
  note T = C6_mixed_forward[OF i l, of ?run ?x]
  have w: "[0, 1 :: real] = (replicate (length [''none'', ''skip_connect'']) 0)[1 := 1]"
    by simp
  have k: "1 < length [''none'', ''skip_connect'']" by simp
  have one: "fst (MixedOp_forward ?run ?m ?x ?w) = ?run (mixed_ops ?m ! 1) ?x"
    using T[THEN conjunct2, THEN conjunct2, THEN conjunct2, rule_format, OF k,
        THEN conjunct2, rule_format, OF w] .
  have f5: "fst (MixedOp_forward ?run ?m ?x ?w) = 5" using one by simp
  have called: "snd (MixedOp_forward ?run ?m ?x ?w) = mixed_ops ?m"
    using T[THEN conjunct2, THEN conjunct1] .
  have c: "mixed_ops ?m = [Operation ''none'' 8 1 False, Operation ''skip_connect'' 8 1 False]"
    by simp
  have "MixedOp_forward ?run ?m ?x ?w = ?res"
    using f5 called c by (simp add: prod_eq_iff)
  with i l show ?thesis by blast
qed

section \<open>The forward pass of a cell\<close>

lemma sum_loop_tensor:
  assumes "\<forall>j<length hs. E (k + j) (hs ! j) = Inr (TensorVal (T (k + j)))"
  shows "for_loop (enumerate k hs) (TensorVal a)
           (\<lambda>s (j, h). case E j h of Inl e \<Rightarrow> Inl e | Inr t \<Rightarrow> Inr (py_add s t))
         = Inr (TensorVal (a + (\<Sum>j<length hs. T (k + j))))"
  using assms
proof (induction hs arbitrary: k a)
  case Nil
  then show ?case by simp
next
  case (Cons h hs)
  from Cons.prems have h: "E k h = Inr (TensorVal (T k))" by auto
  from Cons.prems have "\<forall>j<length hs. E (Suc k + j) (hs ! j) = Inr (TensorVal (T (Suc k + j)))"
    by auto
  from Cons.IH[OF this, of "a + T k"] h
  show ?case by (simp add: sum.lessThan_Suc_shift add.assoc del: sum.lessThan_Suc)
qed

lemma sum_loop0:
  fixes T :: "nat \<Rightarrow> 't::real_vector"
  assumes "\<forall>j<length hs. E j (hs ! j) = Inr (TensorVal (T j))" and "hs \<noteq> []"
  shows "for_loop (enumerate 0 hs) IntZero
           (\<lambda>s (j, h). case E j h of Inl e \<Rightarrow> Inl e | Inr t \<Rightarrow> Inr (py_add s t))
         = Inr (TensorVal (\<Sum>j<length hs. T j))"
proof -
  from assms(2) obtain h hs' where hs: "hs = h # hs'" by (cases hs) auto
  from assms(1) hs have h: "E 0 h = Inr (TensorVal (T 0))" by auto
  from assms(1) hs have "\<forall>j<length hs'. E (1 + j) (hs' ! j) = Inr (TensorVal (T (1 + j)))"
    by auto
  from sum_loop_tensor[OF this, of "T 0"] h
  show ?thesis unfolding hs
    by (simp add: sum.lessThan_Suc_shift del: sum.lessThan_Suc)
qed

lemma Cell_edge_ok:
  assumes "offset + j < length (cell_ops self)" "offset + j < length weights"
    and "weights ! (offset + j) \<noteq> []" "mixed_ops (cell_ops self ! (offset + j)) \<noteq> []"
  shows "Cell_edge run self weights offset j (TensorVal t)
           = Inr (TensorVal (fst (MixedOp_forward run (cell_ops self ! (offset + j)) t
                                   (weights ! (offset + j)))))"
  using assms by (simp add: Cell_edge_def getitem_def)


lemma Cell_forward_loop:
  fixes a b :: "'t::real_vector"
  assumes "edge_offset n \<le> length (cell_ops self)" "edge_offset n \<le> length weights"
    and "\<forall>e<edge_offset n. weights ! e \<noteq> [] \<and> mixed_ops (cell_ops self ! e) \<noteq> []"
  shows "\<exists>st. for_loop [0..<n] ([TensorVal a, TensorVal b], 0)
                (\<lambda>(states, offset) i.
                   case for_loop (enumerate 0 states) IntZero
                          (\<lambda>s (j, h).
                             case Cell_edge run self weights offset j h of
                               Inl e \<Rightarrow> Inl e
                             | Inr t \<Rightarrow> Inr (py_add s t))
                   of Inl e \<Rightarrow> Inl e
                    | Inr s \<Rightarrow> Inr (states @ [s], offset + length states))
              = Inr (map TensorVal st, edge_offset n)
           \<and> length st = n + 2 \<and> st ! 0 = a \<and> st ! 1 = b
           \<and> (\<forall>i<n. st ! (i + 2)
                 = (\<Sum>j<i + 2. fst (MixedOp_forward run (cell_ops self ! (edge_offset i + j))
                                       (st ! j) (weights ! (edge_offset i + j)))))"
  using assms
proof (induction n)
  case 0
  have "[TensorVal a, TensorVal b] = map TensorVal [a, b]" by simp
  then show ?case by (intro exI[of _ "[a, b]"]) simp
next
  case (Suc n)
  let ?F = "\<lambda>e h. fst (MixedOp_forward run (cell_ops self ! e) h (weights ! e))"
  let ?body = "\<lambda>(states, offset) i.
                   case for_loop (enumerate 0 states) IntZero
                          (\<lambda>s (j, h).
                             case Cell_edge run self weights offset j h of
                               Inl e \<Rightarrow> Inl e
                             | Inr t \<Rightarrow> Inr (py_add s t))
                   of Inl e \<Rightarrow> Inl e
                    | Inr s \<Rightarrow> Inr (states @ [s], offset + length states)"
  from Suc.prems have le: "edge_offset n \<le> length (cell_ops self)"
    "edge_offset n \<le> length weights"
    "\<forall>e<edge_offset n. weights ! e \<noteq> [] \<and> mixed_ops (cell_ops self ! e) \<noteq> []" by simp_all
  from Suc.IH[OF le] obtain st where
    l: "for_loop [0..<n] ([TensorVal a, TensorVal b], 0) ?body
          = Inr (map TensorVal st, edge_offset n)"
    and len: "length st = n + 2" and s0: "st ! 0 = a" and s1: "st ! 1 = b"
    and rec: "\<forall>i<n. st ! (i + 2) = (\<Sum>j<i + 2. ?F (edge_offset i + j) (st ! j))"
    by blast
  define s where "s = (\<Sum>j<n + 2. ?F (edge_offset n + j) (st ! j))"
  have "\<forall>j<length (map TensorVal st).
          Cell_edge run self weights (edge_offset n) j (map TensorVal st ! j)
          = Inr (TensorVal (?F (edge_offset n + j) (st ! j)))"
  proof (intro allI impI)
    fix j assume "j < length (map TensorVal st)"
    with len have j: "j < n + 2" by simp
    then have e: "edge_offset n + j < edge_offset (Suc n)" by simp
    with Suc.prems have "edge_offset n + j < length (cell_ops self)"
      "edge_offset n + j < length weights" "weights ! (edge_offset n + j) \<noteq> []"
      "mixed_ops (cell_ops self ! (edge_offset n + j)) \<noteq> []" by auto
    from Cell_edge_ok[OF this, of run "st ! j"] j len
    show "Cell_edge run self weights (edge_offset n) j (map TensorVal st ! j)
          = Inr (TensorVal (?F (edge_offset n + j) (st ! j)))" by simp
  qed
  moreover have "map TensorVal st \<noteq> []" using len by auto
  ultimately have "for_loop (enumerate 0 (map TensorVal st)) IntZero
                 (\<lambda>s (j, h). case Cell_edge run self weights (edge_offset n) j h of
                                Inl e \<Rightarrow> Inl e | Inr t \<Rightarrow> Inr (py_add s t))
               = Inr (TensorVal (\<Sum>j<length (map TensorVal st). ?F (edge_offset n + j) (st ! j)))"
    by (rule sum_loop0[where E = "Cell_edge run self weights (edge_offset n)"
      and T = "\<lambda>j. ?F (edge_offset n + j) (st ! j)" and hs = "map TensorVal st"])
  then have inner: "for_loop (enumerate 0 (map TensorVal st)) IntZero
                 (\<lambda>s (j, h). case Cell_edge run self weights (edge_offset n) j h of
                                Inl e \<Rightarrow> Inl e | Inr t \<Rightarrow> Inr (py_add s t))
               = Inr (TensorVal s)"
    using len by (simp add: s_def)
  have step: "?body (map TensorVal st, edge_offset n) n
                = Inr (map TensorVal (st @ [s]), edge_offset (Suc n))"
    using inner len by simp
  have run: "for_loop [0..<Suc n] ([TensorVal a, TensorVal b], 0) ?body
               = Inr (map TensorVal (st @ [s]), edge_offset (Suc n))"
    using l step by (simp add: for_loop_append)
  have rec': "\<forall>i<Suc n. (st @ [s]) ! (i + 2)
                 = (\<Sum>j<i + 2. ?F (edge_offset i + j) ((st @ [s]) ! j))"
  proof (intro allI impI)
    fix i assume i: "i < Suc n"
    have same: "(\<Sum>j<i + 2. ?F (edge_offset i + j) ((st @ [s]) ! j))
        = (\<Sum>j<i + 2. ?F (edge_offset i + j) (st ! j))"
      using i len by (intro sum.cong) (auto simp: nth_append)
    show "(st @ [s]) ! (i + 2) = (\<Sum>j<i + 2. ?F (edge_offset i + j) ((st @ [s]) ! j))"
    proof (cases "i = n")
      case True
      then show ?thesis unfolding same using len by (simp add: nth_append s_def)
    next
      case False
      with i have "i < n" by simp
      then show ?thesis unfolding same using len rec by (simp add: nth_append)
    qed
  qed
  have "length (st @ [s]) = Suc n + 2 \<and> (st @ [s]) ! 0 = a \<and> (st @ [s]) ! 1 = b"
    using len s0 s1 by (simp add: nth_append)
  with run rec' show ?case by blast
qed

lemma Cell_init_fields:
  assumes "Cell_init PRIMITIVES keys steps multiplier C_prev_prev C_prev C reduction reduction_prev
             = Inr self"
  shows "cell_steps self = steps" "cell_multiplier self = multiplier"
    "cell_reduction self = reduction"
    "cell_preprocess0 self = make_preprocess0 C_prev_prev C reduction_prev"
    "cell_preprocess1 self = make_preprocess1 C_prev C"
  using assms unfolding Cell_init_def by (auto split: sum.splits)

lemma slice_from_last:
  assumes "1 \<le> m" "m \<le> int (length xs)"
  shows "slice_from xs (- m) = drop (length xs - nat m) xs"
    and "length (drop (length xs - nat m) xs) = nat m"
    and "drop (length xs - nat m) xs \<noteq> []"
proof -
  from assms have "nat (int (length xs) - m) = length xs - nat m" by linarith
  with assms show "slice_from xs (- m) = drop (length xs - nat m) xs"
    by (simp add: slice_from_def Let_def max_def)
  from assms show "length (drop (length xs - nat m) xs) = nat m" by (simp; linarith?)
  from assms show "drop (length xs - nat m) xs \<noteq> []" by (simp; linarith?)
qed

lemma tensors_of_map: "tensors_of (map TensorVal ts) = Some ts"
  by (induction ts) simp_all

lemma torch_cat_tensors:
  "ts \<noteq> [] \<Longrightarrow> torch_cat cat (map TensorVal ts) = Inr (cat ts)"
  by (simp add: torch_cat_def tensors_of_map)

text \<open>
  Without a primitive, or with weight rows without columns, every sum of a MixedOp is
  the int 0, so are the states of the intermediate nodes, and \<^verbatim>\<open>torch.cat\<close> refuses them.
\<close>

lemma Cell_forward_int_zero:
  "Cell_init [] [] 1 1 8 8 4 False False
     = Inr \<lparr>cell_reduction = False,
            cell_preprocess0 = ReLUConvBN 8 4 1 1 0 False,
            cell_preprocess1 = ReLUConvBN 8 4 1 1 0 False,
            cell_steps = 1, cell_multiplier = 1,
            cell_ops = [MixedOp [], MixedOp []]\<rparr>
   \<and> Cell_forward (\<lambda>m t. t) sum_list
        \<lparr>cell_reduction = False,
            cell_preprocess0 = ReLUConvBN 8 4 1 1 0 False,
            cell_preprocess1 = ReLUConvBN 8 4 1 1 0 False,
            cell_steps = 1, cell_multiplier = 1,
            cell_ops = [MixedOp [], MixedOp []]\<rparr>
        (1::real) 2 [[], []] = Inl TypeError
   \<and> Cell_forward (\<lambda>m t. t) sum_list
        \<lparr>cell_reduction = False,
            cell_preprocess0 = ReLUConvBN 8 4 1 1 0 False,
            cell_preprocess1 = ReLUConvBN 8 4 1 1 0 False,
            cell_steps = 1, cell_multiplier = 1,
            cell_ops = replicate 2 (MixedOp [Operation ''skip_connect'' 4 1 False])\<rparr>
        (1::real) 2 [[], []] = Inl TypeError"
  by code_simp

text \<open>
  Claim C2.  For a cell built by \<^verbatim>\<open>Cell.__init__\<close> over at least one primitive, with
  \<open>1 \<le> multiplier \<le> steps + 2\<close>, and a weight table with a non-empty row for every edge,
  \<^verbatim>\<open>Cell.forward\<close> returns, and there is a list of \<open>steps + 2\<close> states such that: the first
  two are the preprocessed inputs; the state of the intermediate node \<open>i\<close> (at position
  \<open>i + 2\<close>) is the sum, over the \<open>i + 2\<close> states \<open>h\<close> before it, of the MixedOp at position
  \<open>edge_offset i + j\<close> applied to \<open>h\<close> with the weight row \<open>edge_offset i + j\<close>, where
  \<open>edge_offset i\<close> is the number of edges of the earlier nodes; and the result is the
  concatenation of the last \<open>multiplier\<close> states, in their order.
\<close>

theorem C2_cell_forward:
  fixes s0 s1 :: "'t::real_vector"
  assumes "Cell_init PRIMITIVES keys steps multiplier C_prev_prev C_prev C reduction reduction_prev
             = Inr self"
    and "PRIMITIVES \<noteq> []"
    and "1 \<le> multiplier" and "multiplier \<le> steps + 2"
    and "edge_offset (nat steps) \<le> length weights"
    and "\<forall>row\<in>set weights. row \<noteq> []"
  shows "\<exists>states.
           length states = nat steps + 2
         \<and> states ! 0 = run (cell_preprocess0 self) s0
         \<and> states ! 1 = run (cell_preprocess1 self) s1
         \<and> (\<forall>i<nat steps. states ! (i + 2)
               = (\<Sum>j<i + 2. fst (MixedOp_forward run (cell_ops self ! (edge_offset i + j))
                                     (states ! j) (weights ! (edge_offset i + j)))))
         \<and> Cell_forward run cat self s0 s1 weights
             = Inr (cat (drop (length states - nat multiplier) states))
         \<and> length (drop (length states - nat multiplier) states) = nat multiplier"
proof -
  note f = Cell_init_fields[OF assms(1)]
  note o = Cell_init_ops[OF assms(1)]
  from o have lo: "edge_offset (nat steps) \<le> length (cell_ops self)" by simp
  have ne: "\<forall>e<edge_offset (nat steps).
      weights ! e \<noteq> [] \<and> mixed_ops (cell_ops self ! e) \<noteq> []"
  proof (intro allI impI)
    fix e assume e: "e < edge_offset (nat steps)"
    with assms(5,6) have w: "weights ! e \<noteq> []" by simp
    from edge_decompose[OF e] obtain i j where
      ij: "i < nat steps" "j < i + 2" "e = edge_offset i + j" by blast
    with o have "MixedOp_init PRIMITIVES keys C (edge_stride reduction j)
        = Inr (cell_ops self ! e)" by blast
    from MixedOp_init_ops[OF this] assms(2) have "mixed_ops (cell_ops self ! e) \<noteq> []"
      by auto
    with w show "weights ! e \<noteq> [] \<and> mixed_ops (cell_ops self ! e) \<noteq> []" by simp
  qed
  from Cell_forward_loop[OF lo assms(5) ne, of "run (cell_preprocess0 self) s0"
      "run (cell_preprocess1 self) s1" run]
  obtain st where
    l: "for_loop [0..<nat steps]
          ([TensorVal (run (cell_preprocess0 self) s0),
            TensorVal (run (cell_preprocess1 self) s1)], 0)
                (\<lambda>(states, offset) i.
                   case for_loop (enumerate 0 states) IntZero
                          (\<lambda>s (j, h).
                             case Cell_edge run self weights offset j h of
                               Inl e \<Rightarrow> Inl e
                             | Inr t \<Rightarrow> Inr (py_add s t))
                   of Inl e \<Rightarrow> Inl e
                    | Inr s \<Rightarrow> Inr (states @ [s], offset + length states))
              = Inr (map TensorVal st, edge_offset (nat steps))"
    and len: "length st = nat steps + 2"
    and s0: "st ! 0 = run (cell_preprocess0 self) s0"
    and s1: "st ! 1 = run (cell_preprocess1 self) s1"
    and rec: "\<forall>i<nat steps. st ! (i + 2)
                 = (\<Sum>j<i + 2. fst (MixedOp_forward run (cell_ops self ! (edge_offset i + j))
                                       (st ! j) (weights ! (edge_offset i + j))))"
    by blast
  from assms(4) len have m: "multiplier \<le> int (length st)" by linarith
  note sl = slice_from_last[OF assms(3) m]
  from assms(4) len have m': "multiplier \<le> int (length (map TensorVal st))" by simp
  from slice_from_last(1)[OF assms(3) m']
  have "slice_from (map TensorVal st) (- multiplier)
          = map TensorVal (drop (length st - nat multiplier) st)"
    by (simp add: drop_map)
  with torch_cat_tensors[OF sl(3), of cat]
  have "torch_cat cat (slice_from (map TensorVal st) (- multiplier))
          = Inr (cat (drop (length st - nat multiplier) st))" by simp
  then have "Cell_forward run cat self s0 s1 weights
          = Inr (cat (drop (length st - nat multiplier) st))"
    unfolding Cell_forward_def Let_def f(1,2) py_range_def l by simp
  with len s0 s1 rec sl(2) show ?thesis by blast
qed


theorem C2_cell_forward_witness:
  "Cell_init [''none'', ''skip_connect''] [''none'', ''skip_connect''] 2 2 8 8 4 False False
     = Inr \<lparr>cell_reduction = False,
            cell_preprocess0 = ReLUConvBN 8 4 1 1 0 False,
            cell_preprocess1 = ReLUConvBN 8 4 1 1 0 False,
            cell_steps = 2, cell_multiplier = 2,
            cell_ops = replicate 5
              (MixedOp [Operation ''none'' 4 1 False, Operation ''skip_connect'' 4 1 False])\<rparr>
   \<and> [''none'', ''skip_connect''] \<noteq> []
   \<and> (1::int) \<le> 2 \<and> (2::int) \<le> 2 + 2
   \<and> edge_offset (nat 2) \<le> length [[0, 1], [0, 1], [0, 1], [0, 1], [0, 1 :: real]]
   \<and> [] \<notin> set [[0, 1], [0, 1], [0, 1], [0, 1], [0, 1 :: real]]
   \<and> Cell_forward
        (\<lambda>m t. case m of Operation n c s a \<Rightarrow> (if n = ''none'' then 0 else t) | _ \<Rightarrow> t)
        (\<lambda>ts. foldr (\<lambda>t acc. t + 10 * acc) ts 0)
        \<lparr>cell_reduction = False,
            cell_preprocess0 = ReLUConvBN 8 4 1 1 0 False,
            cell_preprocess1 = ReLUConvBN 8 4 1 1 0 False,
            cell_steps = 2, cell_multiplier = 2,
            cell_ops = replicate 5
              (MixedOp [Operation ''none'' 4 1 False, Operation ''skip_connect'' 4 1 False])\<rparr>
        (1::real) 2 [[0, 1], [0, 1], [0, 1], [0, 1], [0, 1]] = Inr 63
   \<and> (\<exists>states. length states = 4 \<and> states ! 0 = (1::real) \<and> states ! 1 = 2
         \<and> foldr (\<lambda>t acc. t + 10 * acc) (drop 2 states) 0 = 63)"
  (is "?i = Inr ?c \<and> ?p \<and> ?m1 \<and> ?m2 \<and> ?e \<and> ?ne
        \<and> Cell_forward ?run ?cat ?c 1 2 ?W = Inr 63 \<and> ?ex")
proof -
  have i: "?i = Inr ?c" by code_simp
  have p: ?p and m1: ?m1 and m2: ?m2 by simp_all
  have e: ?e by (simp add: eval_nat_numeral)
  have ne: ?ne by simp
  then have rows: "\<forall>row\<in>set ?W. row \<noteq> []" by blast
  have v: "Cell_forward ?run ?cat ?c 1 2 ?W = Inr 63" by code_simp
  from C2_cell_forward[OF i p m1 m2 e rows, of ?run 1 2 ?cat] obtain states where
    s: "length states = nat 2 + 2"
      "states ! 0 = ?run (cell_preprocess0 ?c) 1" "states ! 1 = ?run (cell_preprocess1 ?c) 2"
      "Cell_forward ?run ?cat ?c 1 2 ?W = Inr (?cat (drop (length states - nat 2) states))"
    by blast
  from s(4) v have "?cat (drop (length states - nat 2) states) = 63" by simp
  with s(1,2,3) have ?ex by auto
  with i p m1 m2 e ne v show ?thesis by blast
qed

section \<open>The single choice of the size model\<close>

lemma first_max_props:
  "row \<noteq> [] \<Longrightarrow>
     first_max row < length row
   \<and> (\<forall>k<length row. row ! k \<le> row ! first_max row)
   \<and> (\<forall>k<first_max row. row ! k < row ! first_max row)"
proof (induction row rule: first_max.induct)
  case 1
  then show ?case by simp
next
  case (2 x)
  then show ?case by simp
next
  case (3 x y ys)
  define k where "k = first_max (y # ys)"
  from 3 have IH: "k < length (y # ys)" "\<forall>k'<length (y # ys). (y # ys) ! k' \<le> (y # ys) ! k"
    "\<forall>k'<k. (y # ys) ! k' < (y # ys) ! k"
    unfolding k_def by simp_all
  show ?case
  proof (cases "(y # ys) ! k \<le> x")
    case True
    then have f: "first_max (x # y # ys) = 0" by (simp add: k_def Let_def)
    have "\<forall>k'<length (x # y # ys). (x # y # ys) ! k' \<le> x"
    proof (intro allI impI)
      fix k' assume "k' < length (x # y # ys)"
      then show "(x # y # ys) ! k' \<le> x"
        using IH(2) True by (cases k') (auto intro: order_trans)
    qed
    then show ?thesis unfolding f by simp
  next
    case False
    then have f: "first_max (x # y # ys) = Suc k" by (simp add: k_def Let_def)
    have a: "\<forall>k'<length (x # y # ys). (x # y # ys) ! k' \<le> (y # ys) ! k"
    proof (intro allI impI)
      fix k' assume "k' < length (x # y # ys)"
      then show "(x # y # ys) ! k' \<le> (y # ys) ! k"
        using IH(2) False by (cases k') auto
    qed
    have b: "\<forall>k'<Suc k. (x # y # ys) ! k' < (y # ys) ! k"
    proof (intro allI impI)
      fix k' assume "k' < Suc k"
      then show "(x # y # ys) ! k' < (y # ys) ! k"
        using IH(3) False by (cases k') auto
    qed
    from IH(1) a b show ?thesis unfolding f by simp
  qed
qed

lemma first_max_unique:
  assumes "k < length row" "\<forall>k'<length row. row ! k' \<le> row ! k" "\<forall>k'<k. row ! k' < row ! k"
  shows "first_max row = k"
proof -
  from assms(1) have ne: "row \<noteq> []" by auto
  note p = first_max_props[OF ne]
  show ?thesis
  proof (rule ccontr)
    assume "first_max row \<noteq> k"
    then consider "first_max row < k" | "k < first_max row" by linarith
    then show False
    proof cases
      case 1
      with assms(3) have "row ! first_max row < row ! k" by blast
      moreover from p assms(1) have "row ! k \<le> row ! first_max row" by blast
      ultimately show False by simp
    next
      case 2
      with p have "row ! k < row ! first_max row" by blast
      moreover from assms(2) p have "row ! first_max row \<le> row ! k" by blast
      ultimately show False by simp
    qed
  qed
qed

lemma first_max_one_hot:
  assumes "k < n"
  shows "first_max ((replicate n 0)[k := 1]) = k"
  using assms by (intro first_max_unique) (auto simp: nth_list_update)

lemma InnerCell_init_fields:
  assumes "InnerCell_init keys steps multiplier C_prev_prev C_prev C reduction reduction_prev weights
             = Inr self"
  shows "cell_steps self = steps" "cell_multiplier self = multiplier"
    "cell_reduction self = reduction"
  using assms unfolding InnerCell_init_def by (auto split: sum.splits)

lemma make_op_key:
  assumes "k < length keys"
  shows "make_op keys (keys ! k) C stride
           = Inr (if sublist ''pool'' (keys ! k)
                  then Sequential [Operation (keys ! k) C stride False, BatchNorm2d C False]
                  else Operation (keys ! k) C stride False)"
  using assms by (simp add: make_op_def OPS_def)

lemma InnerCell_edge_Inr:
  assumes "InnerCell_edge keys C reduction weights offset j = Inr op"
  shows "offset + j < length weights \<and> weights ! (offset + j) \<noteq> []
       \<and> first_max (weights ! (offset + j)) < length keys
       \<and> op = (let name = keys ! first_max (weights ! (offset + j))
               in if sublist ''pool'' name
                  then Sequential [Operation name C (edge_stride reduction j) False,
                                   BatchNorm2d C False]
                  else Operation name C (edge_stride reduction j) False)"
proof -
  from assms have a: "offset + j < length weights"
    by (auto simp: InnerCell_edge_def getitem_def split: if_splits)
  with assms have b: "weights ! (offset + j) \<noteq> []"
    by (auto simp: InnerCell_edge_def getitem_def argmax_def split: if_splits)
  with assms a have c: "first_max (weights ! (offset + j)) < length keys"
    by (auto simp: InnerCell_edge_def getitem_def argmax_def split: if_splits)
  from assms a b c have "make_op keys (keys ! first_max (weights ! (offset + j))) C
      (edge_stride reduction j) = Inr op"
    by (simp add: InnerCell_edge_def getitem_def argmax_def)
  with make_op_key[OF c] a b c show ?thesis by (simp add: Let_def)
qed

lemma ModelForModelSizeMeasure_init_cells:
  assumes "ModelForModelSizeMeasure_init keys C num_classes layers criterion a_normal a_reduce
             steps multiplier stem_multiplier w = (Inr model, w')"
  shows "w' = w"
    and "length (sm_cells model) = nat layers"
    and "cell \<in> set (sm_cells model) \<Longrightarrow>
           \<exists>p q r t. InnerCell_init keys steps multiplier p q r (cell_reduction cell) t
                        (t_data (heap w (if cell_reduction cell then a_reduce else a_normal)))
                      = Inr cell"
proof -
  from assms obtain cells C_prev where
    b: "build_cells layers multiplier stem_multiplier C
             (\<lambda>C_prev_prev C_prev C_curr reduction reduction_prev.
                InnerCell_init keys steps multiplier C_prev_prev C_prev C_curr
                  reduction reduction_prev
                  (t_data (heap w (if reduction then a_reduce else a_normal))))
          = Inr (cells, C_prev)"
    and c: "sm_cells model = cells" and w: "w' = w"
    unfolding ModelForModelSizeMeasure_init_def by (auto split: sum.splits)
  show "w' = w" by (rule w)
  from build_cells_cells[OF b] c show "length (sm_cells model) = nat layers" by simp
  assume "cell \<in> set (sm_cells model)"
  with build_cells_cells[OF b] c obtain p q r s t where
    i: "InnerCell_init keys steps multiplier p q r s t
          (t_data (heap w (if s then a_reduce else a_normal))) = Inr cell" by blast
  from InnerCell_init_fields(3)[OF i] have "cell_reduction cell = s" .
  with i have "InnerCell_init keys steps multiplier p q r (cell_reduction cell) t
                 (t_data (heap w (if cell_reduction cell then a_reduce else a_normal)))
               = Inr cell" by simp
  then show "\<exists>p q r t. InnerCell_init keys steps multiplier p q r (cell_reduction cell) t
                        (t_data (heap w (if cell_reduction cell then a_reduce else a_normal)))
                      = Inr cell" by blast
qed

text \<open>
  What the code builds, for every table: in every cell of a model built by
  \<^verbatim>\<open>ModelForModelSizeMeasure.__init__\<close>, the edge into node \<open>i\<close> from source \<open>j\<close> holds one
  operation (an \<open>Operation\<close>, followed by its batch normalisation when it is a pooling
  operation; not a MixedOp): the one named by the key at position \<open>k\<close> of
  \<^verbatim>\<open>list(OPS.keys())\<close>, where \<open>k\<close> is the first position at which the edge's row of the
  weight table (the reduce table for a reduction cell, the normal table otherwise)
  takes its greatest value.
\<close>

lemma size_model_edge_key:
  assumes "ModelForModelSizeMeasure_init keys C num_classes layers criterion a_normal a_reduce
             steps multiplier stem_multiplier w = (Inr model, w')"
    and "cell \<in> set (sm_cells model)" and "i < nat steps" and "j < i + 2"
  shows "length (cell_ops cell) = edge_offset (nat steps)
       \<and> (\<exists>row k C_curr.
             edge_offset i + j
               < length (t_data (heap w (if cell_reduction cell then a_reduce else a_normal)))
           \<and> row = t_data (heap w (if cell_reduction cell then a_reduce else a_normal))
                     ! (edge_offset i + j)
           \<and> k < length row \<and> k < length keys
           \<and> (\<forall>k'<length row. row ! k' \<le> row ! k) \<and> (\<forall>k'<k. row ! k' < row ! k)
           \<and> cell_ops cell ! (edge_offset i + j)
               = (if sublist ''pool'' (keys ! k)
                  then Sequential
                         [Operation (keys ! k) C_curr (if cell_reduction cell \<and> j < 2 then 2 else 1)
                            False,
                          BatchNorm2d C_curr False]
                  else Operation (keys ! k) C_curr (if cell_reduction cell \<and> j < 2 then 2 else 1)
                         False))"
proof -
  let ?T = "t_data (heap w (if cell_reduction cell then a_reduce else a_normal))"
  let ?e = "edge_offset i + j"
  from ModelForModelSizeMeasure_init_cells(3)[OF assms(1,2)] obtain p q r t where
    ic: "InnerCell_init keys steps multiplier p q r (cell_reduction cell) t ?T = Inr cell"
    by blast
  note o = InnerCell_init_ops[OF ic]
  from o assms(3,4) have "InnerCell_edge keys r (cell_reduction cell) ?T (edge_offset i) j
      = Inr (cell_ops cell ! ?e)" by blast
  note e = InnerCell_edge_Inr[OF this]
  let ?k = "first_max (?T ! ?e)"
  from e have ne: "?T ! ?e \<noteq> []" by blast
  note fm = first_max_props[OF ne]
  have op: "cell_ops cell ! ?e
               = (if sublist ''pool'' (keys ! ?k)
                  then Sequential
                         [Operation (keys ! ?k) r (if cell_reduction cell \<and> j < 2 then 2 else 1)
                            False,
                          BatchNorm2d r False]
                  else Operation (keys ! ?k) r (if cell_reduction cell \<and> j < 2 then 2 else 1)
                         False)"
    using e by (simp add: Let_def edge_stride_def)
  from o e fm op show ?thesis by blast
qed

text \<open>
  Claim C8.  Every edge of an \<^verbatim>\<open>InnerCell\<close> holds one operation, but not always the one
  whose weight in the edge's row is highest.  Column \<open>k\<close> of a row is the weight of
  \<^verbatim>\<open>PRIMITIVES[k]\<close>: \<^verbatim>\<open>MixedOp.__init__\<close> builds its operations from \<^verbatim>\<open>PRIMITIVES\<close> in order,
  \<^verbatim>\<open>MixedOp.forward\<close> multiplies the \<open>k\<close>-th of them by \<^verbatim>\<open>weights[k]\<close>, and \<^verbatim>\<open>_parse\<close> names
  \<^verbatim>\<open>PRIMITIVES[k_best]\<close>.  \<^verbatim>\<open>InnerCell.__init__\<close> looks the position of the greatest weight up
  in \<^verbatim>\<open>list(OPS.keys())\<close> instead.  With the ten keys of \<^verbatim>\<open>OPS\<close> and the eight \<^verbatim>\<open>PRIMITIVES\<close>
  of DARTS (\<^verbatim>\<open>darts/operations.py\<close> and \<^verbatim>\<open>darts/genotypes.py\<close>: \<^verbatim>\<open>PRIMITIVES\<close> has the
  convolutions from index 4 on, as the comment in \<^verbatim>\<open>_parse\<close> says, and the two pooling
  operations in the other order than \<^verbatim>\<open>OPS\<close>), take a normal cell of one intermediate
  node and a table whose two rows have their greatest weight at the columns 1 and 6.
  The cell holds \<^verbatim>\<open>avg_pool_3x3\<close> and \<^verbatim>\<open>sep_conv_7x7\<close>, whereas the columns 1 and 6 are the
  weights of \<^verbatim>\<open>max_pool_3x3\<close> and \<^verbatim>\<open>dil_conv_3x3\<close>: these are the operations at the
  positions 1 and 6 of a mixed operation, and the ones that \<^verbatim>\<open>_parse\<close> names for this table.
  (\<^verbatim>\<open>sep_conv_7x7\<close> is not even a primitive.)
\<close>

theorem C8_choice_at_darts_registries:
  "InnerCell_init
     [''none'', ''avg_pool_3x3'', ''max_pool_3x3'', ''skip_connect'', ''sep_conv_3x3'',
      ''sep_conv_5x5'', ''sep_conv_7x7'', ''dil_conv_3x3'', ''dil_conv_5x5'', ''conv_7x1_1x7'']
     1 1 16 16 8 False False
     [[0, 1, 0, 0, 0, 0, 0, 0], [0, 0, 0, 0, 0, 0, 1, 0]]
   = Inr \<lparr>cell_reduction = False,
          cell_preprocess0 = ReLUConvBN 16 8 1 1 0 False,
          cell_preprocess1 = ReLUConvBN 16 8 1 1 0 False,
          cell_steps = 1, cell_multiplier = 1,
          cell_ops = [Sequential [Operation ''avg_pool_3x3'' 8 1 False, BatchNorm2d 8 False],
                      Operation ''sep_conv_7x7'' 8 1 False]\<rparr>
   \<and> argmax [0, 1, 0, 0, 0, 0, 0, 0] = Inr 1
   \<and> argmax [0, 0, 0, 0, 0, 0, 1, 0] = Inr 6
   \<and> MixedOp_init
       [''none'', ''max_pool_3x3'', ''avg_pool_3x3'', ''skip_connect'', ''sep_conv_3x3'',
        ''sep_conv_5x5'', ''dil_conv_3x3'', ''dil_conv_5x5'']
       [''none'', ''avg_pool_3x3'', ''max_pool_3x3'', ''skip_connect'', ''sep_conv_3x3'',
        ''sep_conv_5x5'', ''sep_conv_7x7'', ''dil_conv_3x3'', ''dil_conv_5x5'', ''conv_7x1_1x7'']
       8 1
     = Inr (MixedOp
         [Operation ''none'' 8 1 False,
          Sequential [Operation ''max_pool_3x3'' 8 1 False, BatchNorm2d 8 False],
          Sequential [Operation ''avg_pool_3x3'' 8 1 False, BatchNorm2d 8 False],
          Operation ''skip_connect'' 8 1 False,
          Operation ''sep_conv_3x3'' 8 1 False,
          Operation ''sep_conv_5x5'' 8 1 False,
          Operation ''dil_conv_3x3'' 8 1 False,
          Operation ''dil_conv_5x5'' 8 1 False])
   \<and> parse
       [''none'', ''max_pool_3x3'', ''avg_pool_3x3'', ''skip_connect'', ''sep_conv_3x3'',
        ''sep_conv_5x5'', ''dil_conv_3x3'', ''dil_conv_5x5'']
       1 [[0, 1, 0, 0, 0, 0, 0, 0], [0, 0, 0, 0, 0, 0, 1, 0]]
     = Inr ([(''max_pool_3x3'', 0), (''dil_conv_3x3'', 1)], 1)"
  by (intro conjI; code_simp)

section \<open>The size measurement and the live weights\<close>

lemma ModelForModelSizeMeasure_init_world:
  "snd (ModelForModelSizeMeasure_init keys C num_classes layers criterion a_normal a_reduce
          steps multiplier stem_multiplier w) = w"
  unfolding ModelForModelSizeMeasure_init_def by (auto split: sum.splits prod.splits)

lemma get_current_model_size_model:
  "get_current_model_size count_parameters_in_MB keys self w
   = (map_sum id count_parameters_in_MB
        (fst (ModelForModelSizeMeasure_init keys (net_C self) (net_num_classes self)
                (net_layers self) (net_criterion self) (alphas_normal self) (alphas_reduce self)
                (net_steps self) (net_multiplier self) (net_stem_multiplier self) w)), w)"
proof -
  let ?m = "ModelForModelSizeMeasure_init keys (net_C self) (net_num_classes self)
             (net_layers self) (net_criterion self) (alphas_normal self) (alphas_reduce self)
             (net_steps self) (net_multiplier self) (net_stem_multiplier self) w"
  have "snd ?m = w" by (rule ModelForModelSizeMeasure_init_world)
  then show ?thesis
    unfolding get_current_model_size_def by (cases ?m) (auto split: sum.splits)
qed

lemma get_current_model_size_world:
  "snd (get_current_model_size count_parameters_in_MB keys self w) = w"
  by (simp add: get_current_model_size_model)

lemma ModelForModelSizeMeasure_init_values:
  assumes "t_data (heap w2 a_normal) = t_data (heap w a_normal)"
    and "t_data (heap w2 a_reduce) = t_data (heap w a_reduce)"
  shows "fst (ModelForModelSizeMeasure_init keys C num_classes layers criterion
                a_normal a_reduce steps multiplier stem_multiplier w2)
       = fst (ModelForModelSizeMeasure_init keys C num_classes layers criterion
                a_normal a_reduce steps multiplier stem_multiplier w)"
proof -
  let ?mk = "\<lambda>w C_prev_prev C_prev C_curr reduction reduction_prev.
                InnerCell_init keys steps multiplier C_prev_prev C_prev C_curr
                  reduction reduction_prev
                  (t_data (heap w (if reduction then a_reduce else a_normal)))"
  have eq: "?mk w2 = ?mk w"
    using assms by (intro ext) simp
  show ?thesis
    unfolding ModelForModelSizeMeasure_init_def eq
    by (cases "build_cells layers multiplier stem_multiplier C (?mk w)") auto
qed

lemma get_current_model_size_values:
  assumes "t_data (heap w2 (alphas_normal self)) = t_data (heap w (alphas_normal self))"
    and "t_data (heap w2 (alphas_reduce self)) = t_data (heap w (alphas_reduce self))"
  shows "fst (get_current_model_size count_parameters_in_MB keys self w2)
       = fst (get_current_model_size count_parameters_in_MB keys self w)"
  by (simp add: get_current_model_size_model ModelForModelSizeMeasure_init_values[OF assms])

lemma no_snapshot_same_world: "\<not> snapshot_taken w w a"
  by (simp add: snapshot_taken_def)

text \<open>
  The network state of the examples is one that the constructor builds (but for the
  values of the weights).
\<close>

lemma example_net_built:
  "map_sum id fst
     (Network_init Network [''none'', ''skip_connect''] [''none'', ''skip_connect'']
        4 10 1 0 ''cpu'' 1 1 3 (\<lambda>r c. 1) (\<lambda>r c. 2)
        \<lparr>heap = \<lambda>a. Tensor 0 0 [], next_addr = 0\<rparr>)
   = Inr example_net"
  by code_simp

text \<open>
  At this state the call returns, and it has allocated no tensor: the world after the
  call holds no snapshot of either table.
\<close>

theorem C9_no_snapshot_at_example:
  "fst (get_current_model_size (\<lambda>m. real (length (sm_cells m))) [''none'', ''skip_connect'']
          example_net example_world) = Inr 1
   \<and> next_addr (snd (get_current_model_size (\<lambda>m. real (length (sm_cells m)))
                       [''none'', ''skip_connect''] example_net example_world))
       = next_addr example_world
   \<and> \<not> snapshot_taken example_world
         (snd (get_current_model_size (\<lambda>m. real (length (sm_cells m)))
                 [''none'', ''skip_connect''] example_net example_world))
         (alphas_normal example_net)
   \<and> \<not> snapshot_taken example_world
         (snd (get_current_model_size (\<lambda>m. real (length (sm_cells m)))
                 [''none'', ''skip_connect''] example_net example_world))
         (alphas_reduce example_net)"
proof (intro conjI)
  show "fst (get_current_model_size (\<lambda>m. real (length (sm_cells m))) [''none'', ''skip_connect'']
          example_net example_world) = Inr 1"
    by code_simp
qed (simp_all only: get_current_model_size_world no_snapshot_same_world not_False_eq_True)

text \<open>
  Claim C9.  For every network state, a call of \<^verbatim>\<open>get_current_model_size\<close> leaves the world
  as it was, whether it returns or raises: the tensors of \<^verbatim>\<open>alphas_normal\<close> and
  \<^verbatim>\<open>alphas_reduce\<close> are the same before and after.  The call takes no snapshot of a table
  (it allocates no tensor): the size model is built from the live parameters
  themselves, whose tables the constructor reads in place, and the result of the call
  is a function of the values of the two tables only (the same in any world where the
  two tables hold the same values).
\<close>

theorem C9_size_frame:
  "snd (get_current_model_size count_parameters_in_MB keys self w) = w
   \<and> heap (snd (get_current_model_size count_parameters_in_MB keys self w)) (alphas_normal self)
       = heap w (alphas_normal self)
   \<and> heap (snd (get_current_model_size count_parameters_in_MB keys self w)) (alphas_reduce self)
       = heap w (alphas_reduce self)
   \<and> \<not> snapshot_taken w (snd (get_current_model_size count_parameters_in_MB keys self w)) a
   \<and> fst (get_current_model_size count_parameters_in_MB keys self w)
       = map_sum id count_parameters_in_MB
           (fst (ModelForModelSizeMeasure_init keys (net_C self) (net_num_classes self)
                   (net_layers self) (net_criterion self) (alphas_normal self)
                   (alphas_reduce self) (net_steps self) (net_multiplier self)
                   (net_stem_multiplier self) w))
   \<and> (t_data (heap w2 (alphas_normal self)) = t_data (heap w (alphas_normal self))
      \<and> t_data (heap w2 (alphas_reduce self)) = t_data (heap w (alphas_reduce self)) \<longrightarrow>
        fst (get_current_model_size count_parameters_in_MB keys self w2)
      = fst (get_current_model_size count_parameters_in_MB keys self w))"
proof (intro conjI impI)
  show "snd (get_current_model_size count_parameters_in_MB keys self w) = w"
    by (rule get_current_model_size_world)
  show "heap (snd (get_current_model_size count_parameters_in_MB keys self w)) (alphas_normal self)
       = heap w (alphas_normal self)"
    by (simp only: get_current_model_size_world)
  show "heap (snd (get_current_model_size count_parameters_in_MB keys self w)) (alphas_reduce self)
       = heap w (alphas_reduce self)"
    by (simp only: get_current_model_size_world)
  show "\<not> snapshot_taken w (snd (get_current_model_size count_parameters_in_MB keys self w)) a"
    by (simp only: get_current_model_size_world no_snapshot_same_world not_False_eq_True)
  show "fst (get_current_model_size count_parameters_in_MB keys self w)
       = map_sum id count_parameters_in_MB
           (fst (ModelForModelSizeMeasure_init keys (net_C self) (net_num_classes self)
                   (net_layers self) (net_criterion self) (alphas_normal self)
                   (alphas_reduce self) (net_steps self) (net_multiplier self)
                   (net_stem_multiplier self) w))"
    by (simp add: get_current_model_size_model)
next
  assume "t_data (heap w2 (alphas_normal self)) = t_data (heap w (alphas_normal self))
      \<and> t_data (heap w2 (alphas_reduce self)) = t_data (heap w (alphas_reduce self))"
  then show "fst (get_current_model_size count_parameters_in_MB keys self w2)
      = fst (get_current_model_size count_parameters_in_MB keys self w)"
    using get_current_model_size_values by blast
qed

theorem C9_size_frame_witness:
  "t_data (heap (example_world\<lparr>next_addr := 7\<rparr>) (alphas_normal example_net))
     = t_data (heap example_world (alphas_normal example_net))
   \<and> t_data (heap (example_world\<lparr>next_addr := 7\<rparr>) (alphas_reduce example_net))
     = t_data (heap example_world (alphas_reduce example_net))
   \<and> fst (get_current_model_size (\<lambda>m. real (length (sm_cells m))) [''none'', ''skip_connect'']
            example_net (example_world\<lparr>next_addr := 7\<rparr>))
     = fst (get_current_model_size (\<lambda>m. real (length (sm_cells m))) [''none'', ''skip_connect'']
              example_net example_world)
   \<and> snd (get_current_model_size (\<lambda>m. real (length (sm_cells m))) [''none'', ''skip_connect'']
            example_net example_world) = example_world
   \<and> fst (get_current_model_size (\<lambda>m. real (length (sm_cells m))) [] example_net example_world)
     = Inl IndexError
   \<and> snd (get_current_model_size (\<lambda>m. real (length (sm_cells m))) [] example_net example_world)
     = example_world"
proof -
  let ?cnt = "\<lambda>m. real (length (sm_cells m))"
  let ?K = "[''none'', ''skip_connect'']"
  have d: "t_data (heap (example_world\<lparr>next_addr := 7\<rparr>) (alphas_normal example_net))
             = t_data (heap example_world (alphas_normal example_net))
         \<and> t_data (heap (example_world\<lparr>next_addr := 7\<rparr>) (alphas_reduce example_net))
             = t_data (heap example_world (alphas_reduce example_net))"
    by simp
  note t = C9_size_frame[of ?cnt ?K example_net example_world _ "example_world\<lparr>next_addr := 7\<rparr>"]
  from t have "snd (get_current_model_size ?cnt ?K example_net example_world) = example_world"
    by (rule conjunct1)
  moreover from t d
  have "fst (get_current_model_size ?cnt ?K example_net (example_world\<lparr>next_addr := 7\<rparr>))
      = fst (get_current_model_size ?cnt ?K example_net example_world)"
    by blast
  moreover have "fst (get_current_model_size ?cnt [] example_net example_world) = Inl IndexError"
    by code_simp
  moreover from C9_size_frame[of ?cnt "[]" example_net example_world]
  have "snd (get_current_model_size ?cnt [] example_net example_world) = example_world"
    by (rule conjunct1)
  ultimately show ?thesis using d by blast
qed

section \<open>Cloning a network\<close>

lemma new_defaults:
  assumes "new PRIMITIVES keys self z_normal z_reduce w = Inr (model_new, w')"
  shows "net_class model_new = Network \<and> net_steps model_new = 4
       \<and> net_multiplier model_new = 4 \<and> net_stem_multiplier model_new = 3
       \<and> net_C model_new = net_C self \<and> net_num_classes model_new = net_num_classes self
       \<and> net_layers model_new = net_layers self"
proof -
  from assms obtain w1 where
    "Network_init Network PRIMITIVES keys (net_C self) (net_num_classes self)
       (net_layers self) (net_criterion self) (net_device self) 4 4 3 z_normal z_reduce w
     = Inr (model_new, w1)"
    unfolding new_def by (auto split: sum.splits)
  from Network_init_parts[OF this] show ?thesis by auto
qed

lemma Network_init_isl:
  "isl (Network_init cls PRIMITIVES keys C num_classes layers criterion device
          steps multiplier stem_multiplier z_normal z_reduce w)
   = isl (build_cells layers multiplier stem_multiplier C
            (\<lambda>C_prev_prev C_prev C_curr reduction reduction_prev.
               Cell_init PRIMITIVES keys steps multiplier C_prev_prev C_prev C_curr
                 reduction reduction_prev))"
  unfolding Network_init_def by (auto split: sum.splits prod.splits)

lemma initialize_alphas_frame:
  assumes "initialize_alphas PRIMITIVES steps z_normal z_reduce w = ((an, ar, hn, hr), w')"
    and "a < next_addr w"
  shows "heap w' a = heap w a"
  using assms by (auto simp: initialize_alphas_def alloc_def Let_def)

lemma copy_data_same_shape:
  assumes "t_rows (heap w y) = t_rows (heap w x)" "t_cols (heap w y) = t_cols (heap w x)"
  shows "copy_data x y w
           = Inr (w\<lparr>heap := (heap w)(x := Tensor (t_rows (heap w x)) (t_cols (heap w x))
                                         (t_data (heap w y)))\<rparr>)"
  using assms by (simp add: copy_data_def Let_def)

lemma new_same_shape:
  assumes init: "Network_init Network PRIMITIVES keys (net_C self) (net_num_classes self)
             (net_layers self) (net_criterion self) (net_device self) 4 4 3
             z_normal z_reduce w = Inr (model_new, w1)"
    and old: "alphas_normal self < next_addr w" "alphas_reduce self < next_addr w"
    and shape: "t_rows (heap w (alphas_normal self)) = 14"
      "t_cols (heap w (alphas_normal self)) = length PRIMITIVES"
      "t_rows (heap w (alphas_reduce self)) = 14"
      "t_cols (heap w (alphas_reduce self)) = length PRIMITIVES"
  shows "\<exists>w2. new PRIMITIVES keys self z_normal z_reduce w = Inr (model_new, w2)
           \<and> t_data (heap w2 (alphas_normal model_new)) = t_data (heap w (alphas_normal self))
           \<and> t_data (heap w2 (alphas_reduce model_new)) = t_data (heap w (alphas_reduce self))
           \<and> (\<forall>a<next_addr w. heap w2 a = heap w a)
           \<and> next_addr w \<le> alphas_normal model_new \<and> next_addr w \<le> alphas_reduce model_new
           \<and> alphas_normal model_new \<noteq> alphas_reduce model_new"
proof -
  from Network_init_parts[OF init] obtain hn hr where
    i: "initialize_alphas PRIMITIVES 4 z_normal z_reduce w
          = ((alphas_normal model_new, alphas_reduce model_new, hn, hr), w1)" by blast
  note h = initialize_alphas_heap[OF i]
  note fr = initialize_alphas_frame[OF i]
  let ?an = "alphas_normal model_new" and ?ar = "alphas_reduce model_new"
  let ?sn = "alphas_normal self" and ?sr = "alphas_reduce self"
  have k: "count_edges 4 = 14" by (simp add: count_edges_offset eval_nat_numeral)
  have ne: "?an \<noteq> ?sn" "?an \<noteq> ?sr" "?ar \<noteq> ?sn" "?ar \<noteq> ?sr" "?an \<noteq> ?ar"
    using h(1,2) old by simp_all
  have dn: "t_rows (heap w1 ?an) = 14" "t_cols (heap w1 ?an) = length PRIMITIVES"
    and dr: "t_rows (heap w1 ?ar) = 14" "t_cols (heap w1 ?ar) = length PRIMITIVES"
    unfolding h(3,4) k by (simp_all add: randn_shape)
  have sn: "heap w1 ?sn = heap w ?sn" and sr: "heap w1 ?sr = heap w ?sr"
    using fr old by simp_all
  define w2 where "w2 = w1\<lparr>heap := (heap w1)(?an := Tensor 14 (length PRIMITIVES)
                                         (t_data (heap w ?sn)))\<rparr>"
  define w3 where "w3 = w2\<lparr>heap := (heap w2)(?ar := Tensor 14 (length PRIMITIVES)
                                         (t_data (heap w ?sr)))\<rparr>"
  have c1: "copy_data ?an ?sn w1 = Inr w2"
    using copy_data_same_shape[of w1 ?sn ?an] dn sn shape by (simp add: w2_def)
  have "heap w2 ?ar = heap w1 ?ar" "heap w2 ?sr = heap w ?sr"
    using ne sr by (simp_all add: w2_def)
  then have c2: "copy_data ?ar ?sr w2 = Inr w3"
    using copy_data_same_shape[of w2 ?sr ?ar] dr shape by (simp add: w3_def)
  have n: "new PRIMITIVES keys self z_normal z_reduce w = Inr (model_new, w3)"
    unfolding new_def init using c1 c2 by (simp add: arch_parameters_def)
  have "t_data (heap w3 ?an) = t_data (heap w ?sn)" "t_data (heap w3 ?ar) = t_data (heap w ?sr)"
    using ne by (simp_all add: w3_def w2_def)
  moreover have "\<forall>a<next_addr w. heap w3 a = heap w a"
    using fr h(1,2) by (simp add: w3_def w2_def)
  moreover have "next_addr w \<le> ?an" "next_addr w \<le> ?ar" using h(1,2) by simp_all
  ultimately show ?thesis using n ne(5) by blast
qed


lemma new_rows_mismatch:
  assumes init: "Network_init Network PRIMITIVES keys (net_C self) (net_num_classes self)
             (net_layers self) (net_criterion self) (net_device self) 4 4 3
             z_normal z_reduce w = Inr (model_new, w1)"
    and old: "alphas_normal self < next_addr w"
    and shape: "t_rows (heap w (alphas_normal self)) \<noteq> 14"
      "t_rows (heap w (alphas_normal self)) \<noteq> 1"
  shows "new PRIMITIVES keys self z_normal z_reduce w = Inl RuntimeError"
proof -
  from Network_init_parts[OF init] obtain hn hr where
    i: "initialize_alphas PRIMITIVES 4 z_normal z_reduce w
          = ((alphas_normal model_new, alphas_reduce model_new, hn, hr), w1)" by blast
  note h = initialize_alphas_heap[OF i]
  have k: "count_edges 4 = 14" by (simp add: count_edges_offset eval_nat_numeral)
  have dn: "t_rows (heap w1 (alphas_normal model_new)) = 14"
    unfolding h(3) k by (simp add: randn_shape)
  have sn: "heap w1 (alphas_normal self) = heap w (alphas_normal self)"
    using initialize_alphas_frame[OF i] old by simp
  have "copy_data (alphas_normal model_new) (alphas_normal self) w1 = Inl RuntimeError"
    using dn sn shape by (simp add: copy_data_def Let_def)
  then show ?thesis unfolding new_def init by (simp add: arch_parameters_def)
qed

lemma initialize_alphas_next:
  assumes "initialize_alphas PRIMITIVES steps z_normal z_reduce w = ((an, ar, hn, hr), w')"
  shows "next_addr w' = next_addr w + 4"
  using assms by (auto simp: initialize_alphas_def alloc_def Let_def)

lemma Network_init_tables:
  assumes "Network_init cls PRIMITIVES keys C num_classes layers criterion device
             steps multiplier stem_multiplier z_normal z_reduce w = Inr (net, w')"
  shows "alphas_normal net < next_addr w'" "alphas_reduce net < next_addr w'"
    "t_rows (heap w' (alphas_normal net)) = edge_offset (nat steps)"
    "t_cols (heap w' (alphas_normal net)) = length PRIMITIVES"
    "t_rows (heap w' (alphas_reduce net)) = edge_offset (nat steps)"
    "t_cols (heap w' (alphas_reduce net)) = length PRIMITIVES"
proof -
  from Network_init_parts[OF assms] obtain hn hr where
    i: "initialize_alphas PRIMITIVES steps z_normal z_reduce w
          = ((alphas_normal net, alphas_reduce net, hn, hr), w')" by blast
  note h = initialize_alphas_heap[OF i] and n = initialize_alphas_next[OF i]
  show "alphas_normal net < next_addr w'" "alphas_reduce net < next_addr w'"
    using h(1,2) n by simp_all
  show "t_rows (heap w' (alphas_normal net)) = edge_offset (nat steps)"
    "t_cols (heap w' (alphas_normal net)) = length PRIMITIVES"
    "t_rows (heap w' (alphas_reduce net)) = edge_offset (nat steps)"
    "t_cols (heap w' (alphas_reduce net)) = length PRIMITIVES"
    unfolding h(3,4) by (simp_all add: randn_shape count_edges_offset)
qed

text \<open>
  Claim C7.  The claim is that \<^verbatim>\<open>new\<close> returns a network with the hyperparameters of the
  source and copies of its weight tables.  The code passes only \<^verbatim>\<open>C\<close>, \<^verbatim>\<open>num_classes\<close>,
  \<^verbatim>\<open>layers\<close>, the criterion and the device to \<^verbatim>\<open>Network\<close>.  Evaluated at three sources:
  a network with \<open>steps = 4\<close> and \<open>multiplier = 2\<close> is cloned into one with
  \<open>multiplier = 4\<close>; for a network with \<open>steps = 3\<close> the copy of the 9-row table into the
  14-row table raises; and the clone of an \<^verbatim>\<open>EMNIST\<close> network is a \<^verbatim>\<open>Network\<close>, whose stem
  takes 3 input channels instead of 1.  (For a source with \<open>steps = 4\<close> the tables are
  copied to fresh addresses and the source is left as it was: \<open>new_same_shape\<close>.)
\<close>

theorem C7_new_at_inputs:
  "(\<exists>net w1 net' w2.
      Network_init Network [''none'', ''skip_connect''] [''none'', ''skip_connect'']
        4 10 1 0 ''cpu'' 4 2 3 (\<lambda>r c. 1) (\<lambda>r c. 2)
        \<lparr>heap = \<lambda>a. Tensor 0 0 [], next_addr = 0\<rparr> = Inr (net, w1)
    \<and> new [''none'', ''skip_connect''] [''none'', ''skip_connect''] net (\<lambda>r c. 0) (\<lambda>r c. 0) w1
        = Inr (net', w2)
    \<and> net_steps net = 4 \<and> net_multiplier net = 2 \<and> net_multiplier net' = 4)
   \<and> (\<exists>net w1.
      Network_init Network [''none'', ''skip_connect''] [''none'', ''skip_connect'']
        4 10 1 0 ''cpu'' 3 3 3 (\<lambda>r c. 1) (\<lambda>r c. 2)
        \<lparr>heap = \<lambda>a. Tensor 0 0 [], next_addr = 0\<rparr> = Inr (net, w1)
    \<and> net_steps net = 3
    \<and> new [''none'', ''skip_connect''] [''none'', ''skip_connect''] net (\<lambda>r c. 0) (\<lambda>r c. 0) w1
        = Inl RuntimeError)
   \<and> (\<exists>net w1 net' w2.
      Network_init EMNIST [''none'', ''skip_connect''] [''none'', ''skip_connect'']
        4 10 1 0 ''cpu'' 4 4 3 (\<lambda>r c. 1) (\<lambda>r c. 2)
        \<lparr>heap = \<lambda>a. Tensor 0 0 [], next_addr = 0\<rparr> = Inr (net, w1)
    \<and> new [''none'', ''skip_connect''] [''none'', ''skip_connect''] net (\<lambda>r c. 0) (\<lambda>r c. 0) w1
        = Inr (net', w2)
    \<and> net_class net = EMNIST \<and> net_class net' = Network
    \<and> net_stem net = Sequential [Conv2d 1 12 3 1 False, BatchNorm2d 12 True]
    \<and> net_stem net' = Sequential [Conv2d 3 12 3 1 False, BatchNorm2d 12 True])"
proof -
  let ?P = "[''none'', ''skip_connect'']"
  let ?w = "\<lparr>heap = \<lambda>a. Tensor 0 0 [], next_addr = 0\<rparr>"
  let ?z = "\<lambda>(r::nat) (c::nat). 0::real"
  have cells: "\<not> isl (build_cells 1 4 3 4
            (\<lambda>C_prev_prev C_prev C_curr reduction reduction_prev.
               Cell_init ?P ?P 4 4 C_prev_prev C_prev C_curr reduction reduction_prev))"
    by code_simp
  have inner: "\<exists>m w'. Network_init Network ?P ?P 4 10 1 0 ''cpu'' 4 4 3 ?z ?z w1 = Inr (m, w')"
    for w1
  proof -
    have "\<not> isl (Network_init Network ?P ?P 4 10 1 0 ''cpu'' 4 4 3 ?z ?z w1)"
      unfolding Network_init_isl by (rule cells)
    then show ?thesis by (cases "Network_init Network ?P ?P 4 10 1 0 ''cpu'' 4 4 3 ?z ?z w1") auto
  qed
  have e4: "edge_offset (nat 4) = 14" and e3: "edge_offset (nat 3) = 9"
    by (simp_all add: eval_nat_numeral)
  have p1: "\<exists>net w1 net' w2.
      Network_init Network ?P ?P 4 10 1 0 ''cpu'' 4 2 3 (\<lambda>r c. 1) (\<lambda>r c. 2) ?w = Inr (net, w1)
    \<and> new ?P ?P net ?z ?z w1 = Inr (net', w2)
    \<and> net_steps net = 4 \<and> net_multiplier net = 2 \<and> net_multiplier net' = 4"
  proof -
    let ?r = "Network_init Network ?P ?P 4 10 1 0 ''cpu'' 4 2 3 (\<lambda>r c. 1) (\<lambda>r c. 2) ?w"
    have "\<not> isl ?r" by code_simp
    then obtain net w1 where r: "?r = Inr (net, w1)" by (cases ?r) auto
    note f = Network_init_parts[OF r] and t = Network_init_tables[OF r]
    from f have fs: "net_C net = 4" "net_num_classes net = 10" "net_layers net = 1"
      "net_criterion net = 0" "net_device net = ''cpu''" "net_steps net = 4"
      "net_multiplier net = 2" by auto
    from inner[of w1] obtain m w' where
      "Network_init Network ?P ?P (net_C net) (net_num_classes net) (net_layers net)
         (net_criterion net) (net_device net) 4 4 3 ?z ?z w1 = Inr (m, w')"
      unfolding fs by blast
    from new_same_shape[OF this t(1,2)] t(3-6) e4 obtain w2 where
      n: "new ?P ?P net ?z ?z w1 = Inr (m, w2)" by auto
    from new_defaults[OF n] have "net_multiplier m = 4" by simp
    with r n fs show ?thesis by blast
  qed
  have p2: "\<exists>net w1.
      Network_init Network ?P ?P 4 10 1 0 ''cpu'' 3 3 3 (\<lambda>r c. 1) (\<lambda>r c. 2) ?w = Inr (net, w1)
    \<and> net_steps net = 3
    \<and> new ?P ?P net ?z ?z w1 = Inl RuntimeError"
  proof -
    let ?r = "Network_init Network ?P ?P 4 10 1 0 ''cpu'' 3 3 3 (\<lambda>r c. 1) (\<lambda>r c. 2) ?w"
    have "\<not> isl ?r" by code_simp
    then obtain net w1 where r: "?r = Inr (net, w1)" by (cases ?r) auto
    note f = Network_init_parts[OF r] and t = Network_init_tables[OF r]
    from f have fs: "net_C net = 4" "net_num_classes net = 10" "net_layers net = 1"
      "net_criterion net = 0" "net_device net = ''cpu''" "net_steps net = 3" by auto
    from inner[of w1] obtain m w' where
      "Network_init Network ?P ?P (net_C net) (net_num_classes net) (net_layers net)
         (net_criterion net) (net_device net) 4 4 3 ?z ?z w1 = Inr (m, w')"
      unfolding fs by blast
    from new_rows_mismatch[OF this t(1)] t(3) e3
    have "new ?P ?P net ?z ?z w1 = Inl RuntimeError" by simp
    with r fs show ?thesis by blast
  qed
  have p3: "\<exists>net w1 net' w2.
      Network_init EMNIST ?P ?P 4 10 1 0 ''cpu'' 4 4 3 (\<lambda>r c. 1) (\<lambda>r c. 2) ?w = Inr (net, w1)
    \<and> new ?P ?P net ?z ?z w1 = Inr (net', w2)
    \<and> net_class net = EMNIST \<and> net_class net' = Network
    \<and> net_stem net = Sequential [Conv2d 1 12 3 1 False, BatchNorm2d 12 True]
    \<and> net_stem net' = Sequential [Conv2d 3 12 3 1 False, BatchNorm2d 12 True]"
  proof -
    let ?r = "Network_init EMNIST ?P ?P 4 10 1 0 ''cpu'' 4 4 3 (\<lambda>r c. 1) (\<lambda>r c. 2) ?w"
    have "\<not> isl ?r" by code_simp
    then obtain net w1 where r: "?r = Inr (net, w1)" by (cases ?r) auto
    note f = Network_init_parts[OF r] and t = Network_init_tables[OF r]
    from f have fs: "net_C net = 4" "net_num_classes net = 10" "net_layers net = 1"
      "net_criterion net = 0" "net_device net = ''cpu''" "net_class net = EMNIST" by auto
    from inner[of w1] obtain m w' where
      i: "Network_init Network ?P ?P (net_C net) (net_num_classes net) (net_layers net)
         (net_criterion net) (net_device net) 4 4 3 ?z ?z w1 = Inr (m, w')"
      unfolding fs by blast
    from new_same_shape[OF this t(1,2)] t(3-6) e4 obtain w2 where
      n: "new ?P ?P net ?z ?z w1 = Inr (m, w2)" by auto
    from new_defaults[OF n] have c: "net_class m = Network" by simp
    have s1: "net_stem net = Sequential [Conv2d 1 12 3 1 False, BatchNorm2d 12 True]"
      using r unfolding Network_init_def
      by (auto split: sum.splits prod.splits simp: stem_channels_def)
    have s2: "net_stem m = Sequential [Conv2d 3 12 3 1 False, BatchNorm2d 12 True]"
      using i unfolding Network_init_def fs
      by (auto split: sum.splits prod.splits simp: stem_channels_def)
    from r n fs c s1 s2 show ?thesis by blast
  qed
  from p1 p2 p3 show ?thesis by (intro conjI)
qed

section \<open>The genotype of a weight table\<close>

lemma index_from_Inr:
  "index_from xs v m = Inr n \<Longrightarrow> m \<le> n \<and> n - m < length xs \<and> xs ! (n - m) = v
     \<and> (\<forall>k<n - m. xs ! k \<noteq> v)"
proof (induction xs arbitrary: m)
  case Nil
  then show ?case by simp
next
  case (Cons x xs)
  show ?case
  proof (cases "x = v")
    case True
    with Cons.prems show ?thesis by simp
  next
    case False
    with Cons.prems have r: "index_from xs v (Suc m) = Inr n" by simp
    from Cons.IH[OF r] have a: "Suc m \<le> n" "n - Suc m < length xs" "xs ! (n - Suc m) = v"
      "\<forall>k<n - Suc m. xs ! k \<noteq> v" by auto
    from a(1) have s: "n - m = Suc (n - Suc m)" by simp
    have "\<forall>k<n - m. (x # xs) ! k \<noteq> v"
    proof (intro allI impI)
      fix k assume "k < n - m"
      then show "(x # xs) ! k \<noteq> v" using False a(4) s by (cases k) auto
    qed
    with a s show ?thesis by simp
  qed
qed

lemma list_index_Inr:
  assumes "list_index xs v = Inr n"
  shows "n < length xs" "xs ! n = v" "\<forall>k<n. xs ! k \<noteq> v"
  using index_from_Inr[of xs v 0 n] assms by (simp_all add: list_index_def)

lemma index_from_mem: "v \<in> set xs \<Longrightarrow> \<exists>n. index_from xs v m = Inr n"
  by (induction xs arbitrary: m) auto

lemma list_index_mem: "v \<in> set xs \<Longrightarrow> \<exists>n. list_index xs v = Inr n"
  by (simp add: list_index_def index_from_mem)

lemma py_max_fold:
  fixes v :: real
  shows "foldl (\<lambda>m x. if m < x then x else m) v rest \<in> set (v # rest)
   \<and> (\<forall>x\<in>set (v # rest). x \<le> foldl (\<lambda>m x. if m < x then x else m) v rest)"
proof (induction rest arbitrary: v)
  case Nil
  then show ?case by simp
next
  case (Cons y rest)
  let ?v = "if v < y then y else v"
  from Cons.IH[of ?v] show ?case by (auto split: if_splits)
qed

lemma py_max_Inr:
  assumes "vs \<noteq> []"
  shows "\<exists>s. py_max vs = Inr s \<and> s \<in> set vs \<and> (\<forall>x\<in>set vs. x \<le> s)"
proof -
  from assms obtain v rest where vs: "vs = v # rest" by (cases vs) auto
  from py_max_fold[of v rest] show ?thesis unfolding vs by (simp add: py_max_def)
qed

lemma filter_loop:
  "for_loop xs acc
     (\<lambda>vals k. case (Inr n :: error + nat) of
                  Inl e \<Rightarrow> Inl e
                | Inr none \<Rightarrow> Inr (if k \<noteq> none then vals @ [row ! k] else vals))
   = Inr (acc @ map (\<lambda>k. row ! k) (filter (\<lambda>k. k \<noteq> n) xs))"
  by (induction xs arbitrary: acc) auto

lemma strength_eq:
  assumes "k < length row" "k \<noteq> n" "row ! k = s" "\<forall>k<length row. k \<noteq> n \<longrightarrow> row ! k \<le> s"
  shows "strength n row = s"
proof -
  let ?A = "{row ! k | k. k < length row \<and> k \<noteq> n}"
  have "finite ?A" by simp
  moreover have "s \<in> ?A" using assms by blast
  moreover have "\<forall>x\<in>?A. x \<le> s" using assms by blast
  ultimately show ?thesis unfolding strength_def by (intro Max_eqI) auto
qed

lemma edge_max_strength:
  assumes "list_index PRIMITIVES ''none'' = Inr n" and "x < length W"
    and "\<exists>k<length (W ! x). k \<noteq> n"
  shows "edge_max PRIMITIVES W x = Inr (strength n (W ! x))"
proof -
  let ?row = "W ! x"
  let ?vals = "map (\<lambda>k. ?row ! k) (filter (\<lambda>k. k \<noteq> n) [0..<length ?row])"
  from assms(3) have ne: "?vals \<noteq> []" by (auto simp: filter_empty_conv)
  from py_max_Inr[OF ne] obtain s where
    s: "py_max ?vals = Inr s" "s \<in> set ?vals" "\<forall>v\<in>set ?vals. v \<le> s" by blast
  from s(2) obtain k where k: "k < length ?row" "k \<noteq> n" "?row ! k = s" by auto
  from s(3) have "\<forall>k<length ?row. k \<noteq> n \<longrightarrow> ?row ! k \<le> s" by auto
  from strength_eq[OF k this] have st: "strength n ?row = s" .
  have "edge_max PRIMITIVES W x = py_max ?vals"
    using assms(1,2) filter_loop[where xs = "[0..<length ?row]" and acc = "[]" and n = n and row = ?row]
    by (simp add: edge_max_def getitem_def)
  with s(1) st show ?thesis by simp
qed


lemma k_best_loop:
  fixes row :: "real list"
  shows "\<exists>r. for_loop [0..<m] None
           (\<lambda>k_best k.
               case (Inr n :: error + nat) of
                 Inl e \<Rightarrow> Inl e
               | Inr none \<Rightarrow>
                   Inr (if k \<noteq> none
                        then (case k_best of
                                None \<Rightarrow> Some k
                              | Some b \<Rightarrow> if row ! b < row ! k then Some k else k_best)
                        else k_best)) = Inr r
        \<and> (case r of
              None \<Rightarrow> \<forall>k<m. k = n
            | Some b \<Rightarrow> b < m \<and> b \<noteq> n
                \<and> (\<forall>k<m. k \<noteq> n \<longrightarrow> row ! k \<le> row ! b)
                \<and> (\<forall>k<b. k \<noteq> n \<longrightarrow> row ! k < row ! b))"
proof (induction m)
  case 0
  then show ?case by simp
next
  case (Suc m)
  let ?body = "\<lambda>k_best k.
               case (Inr n :: error + nat) of
                 Inl e \<Rightarrow> Inl e
               | Inr none \<Rightarrow>
                   Inr (if k \<noteq> none
                        then (case k_best of
                                None \<Rightarrow> Some k
                              | Some b \<Rightarrow> if row ! b < row ! k then Some k else k_best)
                        else k_best)"
  from Suc obtain r where l: "for_loop [0..<m] None ?body = Inr r"
    and inv: "case r of
              None \<Rightarrow> \<forall>k<m. k = n
            | Some b \<Rightarrow> b < m \<and> b \<noteq> n
                \<and> (\<forall>k<m. k \<noteq> n \<longrightarrow> row ! k \<le> row ! b)
                \<and> (\<forall>k<b. k \<noteq> n \<longrightarrow> row ! k < row ! b)" by blast
  define r' where "r' = (if m \<noteq> n
                        then (case r of
                                None \<Rightarrow> Some m
                              | Some b \<Rightarrow> if row ! b < row ! m then Some m else r)
                        else r)"
  have run: "for_loop [0..<Suc m] None ?body = Inr r'"
    using l by (simp add: for_loop_append r'_def)
  have "case r' of
              None \<Rightarrow> \<forall>k<Suc m. k = n
            | Some b \<Rightarrow> b < Suc m \<and> b \<noteq> n
                \<and> (\<forall>k<Suc m. k \<noteq> n \<longrightarrow> row ! k \<le> row ! b)
                \<and> (\<forall>k<b. k \<noteq> n \<longrightarrow> row ! k < row ! b)"
  proof (cases "m = n")
    case True
    then have "r' = r" by (simp add: r'_def)
    with inv True show ?thesis
      by (cases r) (auto simp: less_Suc_eq)
  next
    case False
    show ?thesis
    proof (cases r)
      case None
      with False have "r' = Some m" by (simp add: r'_def)
      with inv None False show ?thesis by (auto simp: less_Suc_eq)
    next
      case (Some b)
      with inv have b: "b < m" "b \<noteq> n" "\<forall>k<m. k \<noteq> n \<longrightarrow> row ! k \<le> row ! b"
        "\<forall>k<b. k \<noteq> n \<longrightarrow> row ! k < row ! b" by simp_all
      show ?thesis
      proof (cases "row ! b < row ! m")
        case True
        with Some False have r': "r' = Some m" by (simp add: r'_def)
        have "\<forall>k<Suc m. k \<noteq> n \<longrightarrow> row ! k \<le> row ! m"
          using b(3) True by (auto simp: less_Suc_eq intro: order_trans less_imp_le)
        moreover have "\<forall>k<m. k \<noteq> n \<longrightarrow> row ! k < row ! m"
          using b(3) True by (auto intro: le_less_trans)
        ultimately show ?thesis using False r' by simp
      next
        case False
        with Some \<open>m \<noteq> n\<close> have r': "r' = Some b" by (simp add: r'_def)
        have "\<forall>k<Suc m. k \<noteq> n \<longrightarrow> row ! k \<le> row ! b"
          using b(3) False by (auto simp: less_Suc_eq)
        with b r' show ?thesis by simp
      qed
    qed
  qed
  with run show ?case by blast
qed

lemma find_k_best_best:
  assumes "list_index PRIMITIVES ''none'' = Inr n" and "j < length W"
    and "\<exists>k<length (W ! j). k \<noteq> n"
  shows "\<exists>k. find_k_best PRIMITIVES W j = Inr (Some k) \<and> best_op n (W ! j) k"
proof -
  from k_best_loop[where m = "length (W ! j)" and n = n and row = "W ! j"] obtain r where
    l: "for_loop [0..<length (W ! j)] None
           (\<lambda>k_best k.
               case (Inr n :: error + nat) of
                 Inl e \<Rightarrow> Inl e
               | Inr none \<Rightarrow>
                   Inr (if k \<noteq> none
                        then (case k_best of
                                None \<Rightarrow> Some k
                              | Some b \<Rightarrow> if W ! j ! b < W ! j ! k then Some k else k_best)
                        else k_best)) = Inr r"
    and inv: "case r of
              None \<Rightarrow> \<forall>k<length (W ! j). k = n
            | Some b \<Rightarrow> b < length (W ! j) \<and> b \<noteq> n
                \<and> (\<forall>k<length (W ! j). k \<noteq> n \<longrightarrow> W ! j ! k \<le> W ! j ! b)
                \<and> (\<forall>k<b. k \<noteq> n \<longrightarrow> W ! j ! k < W ! j ! b)" by blast
  from inv assms(3) obtain b where r: "r = Some b" by (cases r) auto
  with inv have "best_op n (W ! j) b" by (simp add: best_op_def)
  moreover have "find_k_best PRIMITIVES W j = Inr r"
    using assms(1,2) l by (simp add: find_k_best_def getitem_def)
  ultimately show ?thesis using r by blast
qed

lemma decorate_loop:
  assumes "\<forall>x\<in>set xs. key x = Inr (g x)"
  shows "for_loop xs acc
           (\<lambda>decorated x. case key x of Inl e \<Rightarrow> Inl e | Inr v \<Rightarrow> Inr (decorated @ [(x, v)]))
         = Inr (acc @ map (\<lambda>x. (x, g x)) xs)"
  using assms by (induction xs arbitrary: acc) auto

lemma insort_key_decorated:
  "insort_key snd (x, g x) (map (\<lambda>x. (x, g x)) ys) = map (\<lambda>x. (x, g x)) (insort_key g x ys)"
  by (induction ys) auto

lemma sort_key_decorated:
  "sort_key snd (map (\<lambda>x. (x, g x)) xs) = map (\<lambda>x. (x, g x)) (sort_key g xs)"
  by (induction xs) (simp_all add: sort_key_def insort_key_decorated)

lemma py_sorted_sort_key:
  assumes "\<forall>x\<in>set xs. key x = Inr (g x)"
  shows "py_sorted xs key = Inr (sort_key g xs)"
  unfolding py_sorted_def decorate_loop[OF assms]
  by (simp add: sort_key_decorated comp_def)

lemma insort_key_stable_order:
  fixes f :: "nat \<Rightarrow> real"
  assumes "sorted_wrt (\<lambda>a b. f a < f b \<or> (f a = f b \<and> a < b)) ys" and "\<forall>y\<in>set ys. x < y"
  shows "sorted_wrt (\<lambda>a b. f a < f b \<or> (f a = f b \<and> a < b)) (insort_key f x ys)"
  using assms
proof (induction ys)
  case Nil
  then show ?case by simp
next
  case (Cons y ys)
  show ?case
  proof (cases "f x \<le> f y")
    case True
    have "\<forall>z\<in>set (y # ys). f x < f z \<or> (f x = f z \<and> x < z)"
    proof
      fix z assume z: "z \<in> set (y # ys)"
      with Cons.prems(1) have "f y \<le> f z" by auto
      with True have "f x \<le> f z" by simp
      moreover from z Cons.prems(2) have "x < z" by auto
      ultimately show "f x < f z \<or> (f x = f z \<and> x < z)" by auto
    qed
    with True Cons.prems(1) show ?thesis by simp
  next
    case False
    from Cons.prems have "sorted_wrt (\<lambda>a b. f a < f b \<or> (f a = f b \<and> a < b)) (insort_key f x ys)"
      by (intro Cons.IH) auto
    moreover have "\<forall>z\<in>set (insort_key f x ys). f y < f z \<or> (f y = f z \<and> y < z)"
      using False Cons.prems(1) by (auto simp: set_insort_key)
    ultimately show ?thesis using False by simp
  qed
qed

lemma sort_key_stable_order:
  fixes f :: "nat \<Rightarrow> real"
  assumes "sorted_wrt (<) xs"
  shows "sorted_wrt (\<lambda>a b. f a < f b \<or> (f a = f b \<and> a < b)) (sort_key f xs)"
  using assms
proof (induction xs)
  case Nil
  then show ?case by (simp add: sort_key_def)
next
  case (Cons x xs)
  then have "sorted_wrt (\<lambda>a b. f a < f b \<or> (f a = f b \<and> a < b)) (sort_key f xs)"
    and "\<forall>y\<in>set (sort_key f xs). x < y" by auto
  from insort_key_stable_order[OF this] show ?case by (simp add: sort_key_def)
qed

lemma top_two_sorted:
  assumes "2 \<le> m"
  shows "\<exists>e1 e2. take 2 (sort_key (\<lambda>x. - S x) [0..<m]) = [e1, e2] \<and> top_two S m e1 e2"
proof -
  let ?ys = "sort_key (\<lambda>x. - S x) [0..<m]"
  let ?R = "\<lambda>a b. - S a < - S b \<or> (- S a = - S b \<and> a < b)"
  have len: "length ?ys = m" by simp
  have set: "set ?ys = {0..<m}" by simp
  have dist: "distinct ?ys" by simp
  have srt: "sorted_wrt ?R ?ys"
    by (rule sort_key_stable_order) simp
  from assms len have tk: "take 2 ?ys = [?ys ! 0, ?ys ! 1]"
    by (metis One_nat_def Suc_1 lessI less_le_trans
        take_Suc_conv_app_nth take_0 append_Cons append_Nil zero_less_Suc)
  have in1: "?ys ! 0 < m" "?ys ! 1 < m"
    using assms len set nth_mem[of 0 ?ys] nth_mem[of 1 ?ys] by auto
  have ne: "?ys ! 0 \<noteq> ?ys ! 1"
    using dist assms len by (simp add: nth_eq_iff_index_eq)
  have r1: "\<forall>x<m. x \<noteq> ?ys ! 0 \<longrightarrow> ranks_before S (?ys ! 0) x"
  proof (intro allI impI)
    fix x assume x: "x < m" "x \<noteq> ?ys ! 0"
    with set obtain p where p: "p < length ?ys" "?ys ! p = x"
      by (metis atLeastLessThan_iff in_set_conv_nth zero_le)
    with x(2) have "0 < p" by (cases p) auto
    from sorted_wrt_nth_less[OF srt this p(1)] p(2)
    show "ranks_before S (?ys ! 0) x" by (auto simp: ranks_before_def)
  qed
  have r2: "\<forall>x<m. x \<noteq> ?ys ! 0 \<longrightarrow> x \<noteq> ?ys ! 1 \<longrightarrow> ranks_before S (?ys ! 1) x"
  proof (intro allI impI)
    fix x assume x: "x < m" "x \<noteq> ?ys ! 0" "x \<noteq> ?ys ! 1"
    with set obtain p where p: "p < length ?ys" "?ys ! p = x"
      by (metis atLeastLessThan_iff in_set_conv_nth zero_le)
    with x(2,3) have "1 < p" by (cases p; cases "p - 1") auto
    from sorted_wrt_nth_less[OF srt this p(1)] p(2)
    show "ranks_before S (?ys ! 1) x" by (auto simp: ranks_before_def)
  qed
  from tk in1 ne r1 r2 show ?thesis unfolding top_two_def by blast
qed

lemma py_range_plus_2 [simp]: "py_range (int i + 2) = [0..<i + 2]"
  by (simp add: py_range_def nat_add_distrib)

lemma parse_edge:
  assumes "list_index PRIMITIVES ''none'' = Inr n" and "j < length W"
    and "\<exists>k<length (W ! j). k \<noteq> n" and "length (W ! j) \<le> length PRIMITIVES"
  shows "\<exists>k. (case find_k_best PRIMITIVES W j of
                 Inl e \<Rightarrow> Inl e
               | Inr None \<Rightarrow> Inl TypeError
               | Inr (Some k_best) \<Rightarrow>
                   (case getitem PRIMITIVES k_best of
                      Inl e \<Rightarrow> Inl e
                    | Inr name \<Rightarrow>
                        Inr (gene @ [(name, j)],
                             if isCNNStructure k_best then cnt + 1 else cnt)))
              = Inr (gene @ [(PRIMITIVES ! k, j)], if isCNNStructure k then cnt + 1 else cnt)
            \<and> best_op n (W ! j) k"
proof -
  from find_k_best_best[OF assms(1,2,3)] obtain k where
    k: "find_k_best PRIMITIVES W j = Inr (Some k)" "best_op n (W ! j) k" by blast
  from k(2) assms(4) have "k < length PRIMITIVES" by (simp add: best_op_def)
  with k show ?thesis by (auto simp: getitem_def)
qed

lemma parse_node:
  fixes cnt :: nat
  assumes none: "list_index PRIMITIVES ''none'' = Inr n"
    and rows: "\<forall>x<i + 2. x < length W \<and> (\<exists>k<length (W ! x). k \<noteq> n)
                 \<and> length (W ! x) \<le> length PRIMITIVES"
  shows "\<exists>e1 e2 k1 k2 c.
     (case py_sorted (py_range (int i + 2))
             (\<lambda>x. case edge_max PRIMITIVES W x of
                     Inl e \<Rightarrow> Inl e
                   | Inr m \<Rightarrow> Inr (- m))
      of Inl e \<Rightarrow> Inl e
       | Inr sorted_edges \<Rightarrow>
           (case for_loop (take 2 sorted_edges) (gene, cnt)
                   (\<lambda>(gene, cnn_structure_count) j.
                      case find_k_best PRIMITIVES W j of
                        Inl e \<Rightarrow> Inl e
                      | Inr None \<Rightarrow> Inl TypeError
                      | Inr (Some k_best) \<Rightarrow>
                          (case getitem PRIMITIVES k_best of
                             Inl e \<Rightarrow> Inl e
                           | Inr name \<Rightarrow>
                               Inr (gene @ [(name, j)],
                                    if isCNNStructure k_best
                                    then cnn_structure_count + 1
                                    else cnn_structure_count)))
            of Inl e \<Rightarrow> Inl e
             | Inr (gene, cnn_structure_count) \<Rightarrow>
                 Inr (gene, nn + 1, stop, cnn_structure_count)))
     = Inr (gene @ [(PRIMITIVES ! k1, e1), (PRIMITIVES ! k2, e2)], nn + 1, stop, c)
     \<and> top_two (\<lambda>x. strength n (W ! x)) (i + 2) e1 e2
     \<and> best_op n (W ! e1) k1 \<and> best_op n (W ! e2) k2"
proof -
  let ?S = "\<lambda>x. strength n (W ! x)"
  have key: "\<forall>x\<in>set [0..<i + 2].
      (case edge_max PRIMITIVES W x of Inl e \<Rightarrow> Inl e | Inr m \<Rightarrow> Inr (- m)) = Inr (- ?S x)"
    using rows edge_max_strength[OF none] by simp
  have srt: "py_sorted (py_range (int i + 2))
             (\<lambda>x. case edge_max PRIMITIVES W x of
                     Inl e \<Rightarrow> Inl e
                   | Inr m \<Rightarrow> Inr (- m)) = Inr (sort_key (\<lambda>x. - ?S x) [0..<i + 2])"
    unfolding py_range_plus_2 by (rule py_sorted_sort_key[OF key])
  have "2 \<le> i + 2" by simp
  from top_two_sorted[OF this, of ?S] obtain e1 e2 where
    tk: "take 2 (sort_key (\<lambda>x. - ?S x) [0..<i + 2]) = [e1, e2]"
    and tt: "top_two ?S (i + 2) e1 e2" by blast
  from tt have e: "e1 < i + 2" "e2 < i + 2" by (simp_all add: top_two_def)
  with rows have r1: "e1 < length W" "\<exists>k<length (W ! e1). k \<noteq> n"
    "length (W ! e1) \<le> length PRIMITIVES"
    and r2: "e2 < length W" "\<exists>k<length (W ! e2). k \<noteq> n"
    "length (W ! e2) \<le> length PRIMITIVES" by simp_all
  from parse_edge[OF none r1, of gene cnt] obtain k1 where
    k1: "(case find_k_best PRIMITIVES W e1 of
                 Inl e \<Rightarrow> Inl e
               | Inr None \<Rightarrow> Inl TypeError
               | Inr (Some k_best) \<Rightarrow>
                   (case getitem PRIMITIVES k_best of
                      Inl e \<Rightarrow> Inl e
                    | Inr name \<Rightarrow>
                        Inr (gene @ [(name, e1)],
                             if isCNNStructure k_best then cnt + 1 else cnt)))
              = Inr (gene @ [(PRIMITIVES ! k1, e1)], if isCNNStructure k1 then cnt + 1 else cnt)"
    and b1: "best_op n (W ! e1) k1" by blast
  let ?g1 = "gene @ [(PRIMITIVES ! k1, e1)]"
  let ?c1 = "if isCNNStructure k1 then cnt + 1 else cnt"
  from parse_edge[OF none r2, of ?g1 ?c1] obtain k2 where
    k2: "(case find_k_best PRIMITIVES W e2 of
                 Inl e \<Rightarrow> Inl e
               | Inr None \<Rightarrow> Inl TypeError
               | Inr (Some k_best) \<Rightarrow>
                   (case getitem PRIMITIVES k_best of
                      Inl e \<Rightarrow> Inl e
                    | Inr name \<Rightarrow>
                        Inr (?g1 @ [(name, e2)],
                             if isCNNStructure k_best then ?c1 + 1 else ?c1)))
              = Inr (?g1 @ [(PRIMITIVES ! k2, e2)], if isCNNStructure k2 then ?c1 + 1 else ?c1)"
    and b2: "best_op n (W ! e2) k2" by blast
  show ?thesis
    unfolding srt sum.case tk
    using k1 k2 tt b1 b2 by (intro exI[of _ e1] exI[of _ e2] exI[of _ k1] exI[of _ k2]
        exI[of _ "if isCNNStructure k2 then ?c1 + 1 else ?c1"]) simp
qed


lemma parse_loop:
  assumes none: "list_index PRIMITIVES ''none'' = Inr n"
    and len: "edge_offset m \<le> length weights"
    and rows: "\<forall>r<edge_offset m. (\<exists>k<length (weights ! r). k \<noteq> n)
                 \<and> length (weights ! r) \<le> length PRIMITIVES"
  shows "\<exists>gene (cnt::nat).
     for_loop [0..<m] ([], 2, 0, 0)
       (\<lambda>(gene, n, start, cnn_structure_count) i.
                let stop = start + n;
                    W = take (stop - start) (drop start weights)
                in case py_sorted (py_range (int i + 2))
                          (\<lambda>x. case edge_max PRIMITIVES W x of
                                  Inl e \<Rightarrow> Inl e
                                | Inr m \<Rightarrow> Inr (- m))
                   of Inl e \<Rightarrow> Inl e
                    | Inr sorted_edges \<Rightarrow>
                        (case for_loop (take 2 sorted_edges) (gene, cnn_structure_count)
                                (\<lambda>(gene, cnn_structure_count) j.
                                   case find_k_best PRIMITIVES W j of
                                     Inl e \<Rightarrow> Inl e
                                   | Inr None \<Rightarrow> Inl TypeError
                                   | Inr (Some k_best) \<Rightarrow>
                                       (case getitem PRIMITIVES k_best of
                                          Inl e \<Rightarrow> Inl e
                                        | Inr name \<Rightarrow>
                                            Inr (gene @ [(name, j)],
                                                 if isCNNStructure k_best
                                                 then cnn_structure_count + 1
                                                 else cnn_structure_count)))
                         of Inl e \<Rightarrow> Inl e
                          | Inr (gene, cnn_structure_count) \<Rightarrow>
                              Inr (gene, n + 1, stop, cnn_structure_count)))
       = Inr (gene, m + 2, edge_offset m, cnt)
     \<and> length gene = 2 * m
     \<and> (\<forall>i<m. \<exists>e1 e2 k1 k2.
           top_two (\<lambda>x. strength n (weights ! (edge_offset i + x))) (i + 2) e1 e2
         \<and> best_op n (weights ! (edge_offset i + e1)) k1
         \<and> best_op n (weights ! (edge_offset i + e2)) k2
         \<and> gene ! (2 * i) = (PRIMITIVES ! k1, e1)
         \<and> gene ! (2 * i + 1) = (PRIMITIVES ! k2, e2))"
  using len rows
proof (induction m)
  case 0
  then show ?case by simp
next
  case (Suc m)
  let ?node = "\<lambda>gene (cnt::nat) (nn::nat) (stop::nat) W i.
      case py_sorted (py_range (int i + 2))
                          (\<lambda>x. case edge_max PRIMITIVES W x of
                                  Inl e \<Rightarrow> Inl e
                                | Inr m \<Rightarrow> Inr (- m))
                   of Inl e \<Rightarrow> Inl e
                    | Inr sorted_edges \<Rightarrow>
                        (case for_loop (take 2 sorted_edges) (gene, cnt)
                                (\<lambda>(gene, cnn_structure_count) j.
                                   case find_k_best PRIMITIVES W j of
                                     Inl e \<Rightarrow> Inl e
                                   | Inr None \<Rightarrow> Inl TypeError
                                   | Inr (Some k_best) \<Rightarrow>
                                       (case getitem PRIMITIVES k_best of
                                          Inl e \<Rightarrow> Inl e
                                        | Inr name \<Rightarrow>
                                            Inr (gene @ [(name, j)],
                                                 if isCNNStructure k_best
                                                 then cnn_structure_count + 1
                                                 else cnn_structure_count)))
                         of Inl e \<Rightarrow> Inl e
                          | Inr (gene, cnn_structure_count) \<Rightarrow>
                              Inr (gene, nn + 1, stop, cnn_structure_count))"
  let ?body = "\<lambda>(gene, n, start, cnn_structure_count) i.
                let stop = start + n;
                    W = take (stop - start) (drop start weights)
                in ?node gene cnn_structure_count n stop W i"
  let ?Q = "\<lambda>gene i. \<exists>e1 e2 k1 k2.
           top_two (\<lambda>x. strength n (weights ! (edge_offset i + x))) (i + 2) e1 e2
         \<and> best_op n (weights ! (edge_offset i + e1)) k1
         \<and> best_op n (weights ! (edge_offset i + e2)) k2
         \<and> gene ! (2 * i) = (PRIMITIVES ! k1, e1)
         \<and> gene ! (2 * i + 1) = (PRIMITIVES ! k2, e2)"
  from Suc.prems have len0: "edge_offset m \<le> length weights"
    and rows0: "\<forall>r<edge_offset m. (\<exists>k<length (weights ! r). k \<noteq> n)
                 \<and> length (weights ! r) \<le> length PRIMITIVES" by simp_all
  from Suc.IH[OF len0 rows0] obtain gene cnt where
    l: "for_loop [0..<m] ([], 2, 0, 0) ?body = Inr (gene, m + 2, edge_offset m, cnt)"
    and lg: "length gene = 2 * m" and q: "\<forall>i<m. ?Q gene i" by blast
  define W where "W = take (m + 2) (drop (edge_offset m) weights)"
  have Wx: "x < length W \<and> W ! x = weights ! (edge_offset m + x)" if "x < m + 2" for x
    using that Suc.prems(1) by (simp add: W_def)
  have rowsW: "\<forall>x<m + 2. x < length W \<and> (\<exists>k<length (W ! x). k \<noteq> n)
                 \<and> length (W ! x) \<le> length PRIMITIVES"
  proof (intro allI impI)
    fix x assume x: "x < m + 2"
    then have "edge_offset m + x < edge_offset (Suc m)" by simp
    with Suc.prems(2) have "(\<exists>k<length (weights ! (edge_offset m + x)). k \<noteq> n)
        \<and> length (weights ! (edge_offset m + x)) \<le> length PRIMITIVES" by blast
    with Wx[OF x] show "x < length W \<and> (\<exists>k<length (W ! x). k \<noteq> n)
                 \<and> length (W ! x) \<le> length PRIMITIVES" by simp
  qed
  from parse_node[OF none rowsW, where gene = gene and cnt = cnt and nn = "m + 2"
      and stop = "edge_offset m + (m + 2)"]
  obtain e1 e2 k1 k2 c where
    node: "?node gene cnt (m + 2) (edge_offset m + (m + 2)) W m
       = Inr (gene @ [(PRIMITIVES ! k1, e1), (PRIMITIVES ! k2, e2)], m + 2 + 1,
              edge_offset m + (m + 2), c)"
    and tt: "top_two (\<lambda>x. strength n (W ! x)) (m + 2) e1 e2"
    and b1: "best_op n (W ! e1) k1" and b2: "best_op n (W ! e2) k2" by blast
  let ?gene = "gene @ [(PRIMITIVES ! k1, e1), (PRIMITIVES ! k2, e2)]"
  have Weq: "take (edge_offset m + (m + 2) - edge_offset m) (drop (edge_offset m) weights) = W"
    by (simp add: W_def)
  have st: "?body (gene, m + 2, edge_offset m, cnt) m
       = ?node gene cnt (m + 2) (edge_offset m + (m + 2)) W m"
    by (simp only: prod.case Let_def Weq)
  have ar: "m + 2 + 1 = Suc m + 2" "edge_offset m + (m + 2) = edge_offset (Suc m)"
    by simp_all
  have step: "?body (gene, m + 2, edge_offset m, cnt) m
       = Inr (?gene, Suc m + 2, edge_offset (Suc m), c)"
    using node unfolding st ar .
  have run: "for_loop [0..<Suc m] ([], 2, 0, 0) ?body
       = Inr (?gene, Suc m + 2, edge_offset (Suc m), c)"
    using l step by (simp add: for_loop_append)
  from tt have e: "e1 < m + 2" "e2 < m + 2" by (simp_all add: top_two_def)
  have S: "(\<lambda>x. strength n (W ! x)) x = (\<lambda>x. strength n (weights ! (edge_offset m + x))) x"
    if "x < m + 2" for x using Wx[OF that] by simp
  have tt': "top_two (\<lambda>x. strength n (weights ! (edge_offset m + x))) (m + 2) e1 e2"
    using tt S unfolding top_two_def ranks_before_def by auto
  have qm: "?Q ?gene m"
    using tt' b1 b2 Wx[OF e(1)] Wx[OF e(2)] lg
    by (intro exI[of _ e1] exI[of _ e2] exI[of _ k1] exI[of _ k2]) (simp add: nth_append)
  have qs: "\<forall>i<Suc m. ?Q ?gene i"
  proof (intro allI impI)
    fix i assume i: "i < Suc m"
    show "?Q ?gene i"
    proof (cases "i = m")
      case True
      with qm show ?thesis by simp
    next
      case False
      with i have im: "i < m" by simp
      with lg have "?gene ! (2 * i) = gene ! (2 * i)" "?gene ! (2 * i + 1) = gene ! (2 * i + 1)"
        by (simp_all add: nth_append)
      with q im show ?thesis by simp
    qed
  qed
  have "length ?gene = 2 * Suc m" using lg by simp
  with run qs show ?case by blast
qed

text \<open>
  Claim C1.  Let \<^verbatim>\<open>"none"\<close> be a primitive, let there be at least two primitives, and let
  the weight table have a row of \<open>|PRIMITIVES|\<close> weights for every edge.  Then \<^verbatim>\<open>_parse\<close>
  returns, and its gene has two pairs for every intermediate node \<open>i\<close>, at the positions
  \<open>2 * i\<close> and \<open>2 * i + 1\<close>: their source nodes \<open>e1\<close> and \<open>e2\<close> are the top two of the
  \<open>i + 2\<close> source edges of the node, ranked by strength (the greatest weight of the
  edge's row over the operations other than \<^verbatim>\<open>"none"\<close>), the earlier edge first among
  edges of equal strength; and the operation recorded with each is the primitive at the
  first position, other than that of \<^verbatim>\<open>"none"\<close>, where the edge's row is greatest.
\<close>

theorem C1_genotype_parse:
  assumes "''none'' \<in> set PRIMITIVES" and "2 \<le> length PRIMITIVES"
    and "edge_offset (nat steps) \<le> length weights"
    and "\<forall>row\<in>set weights. length row = length PRIMITIVES"
  shows "\<exists>n gene cnt.
           list_index PRIMITIVES ''none'' = Inr n
         \<and> parse PRIMITIVES steps weights = Inr (gene, cnt)
         \<and> length gene = 2 * nat steps
         \<and> (\<forall>i<nat steps. \<exists>e1 e2 k1 k2.
               top_two (\<lambda>x. strength n (weights ! (edge_offset i + x))) (i + 2) e1 e2
             \<and> best_op n (weights ! (edge_offset i + e1)) k1
             \<and> best_op n (weights ! (edge_offset i + e2)) k2
             \<and> gene ! (2 * i) = (PRIMITIVES ! k1, e1)
             \<and> gene ! (2 * i + 1) = (PRIMITIVES ! k2, e2))"
proof -
  from list_index_mem[OF assms(1)] obtain n where n: "list_index PRIMITIVES ''none'' = Inr n"
    by blast
  have rows: "\<forall>r<edge_offset (nat steps). (\<exists>k<length (weights ! r). k \<noteq> n)
                 \<and> length (weights ! r) \<le> length PRIMITIVES"
  proof (intro allI impI)
    fix r assume "r < edge_offset (nat steps)"
    with assms(3) have "weights ! r \<in> set weights" by simp
    with assms(4) have l: "length (weights ! r) = length PRIMITIVES" by blast
    have "\<exists>k<length (weights ! r). k \<noteq> n"
    proof (cases "n = 0")
      case True
      with l assms(2) have "1 < length (weights ! r) \<and> (1::nat) \<noteq> n" by auto
      then show ?thesis by blast
    next
      case False
      with l assms(2) have "0 < length (weights ! r) \<and> 0 \<noteq> n" by auto
      then show ?thesis by blast
    qed
    with l show "(\<exists>k<length (weights ! r). k \<noteq> n)
                 \<and> length (weights ! r) \<le> length PRIMITIVES" by simp
  qed
  from parse_loop[OF n assms(3) rows] obtain gene and cnt :: nat where
    l: "for_loop [0..<nat steps] ([], 2, 0, 0)
       (\<lambda>(gene, n, start, cnn_structure_count) i.
                let stop = start + n;
                    W = take (stop - start) (drop start weights)
                in case py_sorted (py_range (int i + 2))
                          (\<lambda>x. case edge_max PRIMITIVES W x of
                                  Inl e \<Rightarrow> Inl e
                                | Inr m \<Rightarrow> Inr (- m))
                   of Inl e \<Rightarrow> Inl e
                    | Inr sorted_edges \<Rightarrow>
                        (case for_loop (take 2 sorted_edges) (gene, cnn_structure_count)
                                (\<lambda>(gene, cnn_structure_count) j.
                                   case find_k_best PRIMITIVES W j of
                                     Inl e \<Rightarrow> Inl e
                                   | Inr None \<Rightarrow> Inl TypeError
                                   | Inr (Some k_best) \<Rightarrow>
                                       (case getitem PRIMITIVES k_best of
                                          Inl e \<Rightarrow> Inl e
                                        | Inr name \<Rightarrow>
                                            Inr (gene @ [(name, j)],
                                                 if isCNNStructure k_best
                                                 then cnn_structure_count + 1
                                                 else cnn_structure_count)))
                         of Inl e \<Rightarrow> Inl e
                          | Inr (gene, cnn_structure_count) \<Rightarrow>
                              Inr (gene, n + 1, stop, cnn_structure_count)))
       = Inr (gene, nat steps + 2, edge_offset (nat steps), cnt)"
    and lg: "length gene = 2 * nat steps"
    and q: "\<forall>i<nat steps. \<exists>e1 e2 k1 k2.
           top_two (\<lambda>x. strength n (weights ! (edge_offset i + x))) (i + 2) e1 e2
         \<and> best_op n (weights ! (edge_offset i + e1)) k1
         \<and> best_op n (weights ! (edge_offset i + e2)) k2
         \<and> gene ! (2 * i) = (PRIMITIVES ! k1, e1)
         \<and> gene ! (2 * i + 1) = (PRIMITIVES ! k2, e2)" by blast
  have "parse PRIMITIVES steps weights = Inr (gene, cnt)"
    unfolding parse_def py_range_def[of steps] l by simp
  with n lg q show ?thesis by blast
qed

theorem C1_genotype_parse_witness:
  "''none'' \<in> set [''none'', ''max_pool_3x3'', ''skip_connect'']
   \<and> 2 \<le> length [''none'', ''max_pool_3x3'', ''skip_connect'']
   \<and> edge_offset (nat 2)
       \<le> length [[5 / 10, 2 / 10, 3 / 10], [1 / 10, 6 / 10, 3 / 10],
                  [2 / 10, 4 / 10, 4 / 10], [6 / 10, 0, 4 / 10], [7 / 10, 0, 3 / 10 :: real]]
   \<and> parse [''none'', ''max_pool_3x3'', ''skip_connect''] 2
         [[5 / 10, 2 / 10, 3 / 10], [1 / 10, 6 / 10, 3 / 10],
          [2 / 10, 4 / 10, 4 / 10], [6 / 10, 0, 4 / 10], [7 / 10, 0, 3 / 10]]
       = Inr ([(''max_pool_3x3'', 1), (''skip_connect'', 0),
               (''max_pool_3x3'', 0), (''skip_connect'', 1)], 0)
   \<and> length [(''max_pool_3x3'', 1 :: nat), (''skip_connect'', 0),
              (''max_pool_3x3'', 0), (''skip_connect'', 1)] = 2 * nat 2
   \<and> list_index [''none'', ''max_pool_3x3'', ''skip_connect''] ''none'' = Inr 0"
  (is "?h1 \<and> ?h2 \<and> ?h3 \<and> parse ?P 2 ?W = Inr (?g, 0) \<and> ?len \<and> ?ix")
proof -
  have h1: ?h1 and h2: ?h2 by simp_all
  have h3: ?h3 by (simp add: eval_nat_numeral)
  have h4: "\<forall>row\<in>set ?W. length row = length ?P" by simp
  have v: "parse ?P 2 ?W = Inr (?g, 0)" by code_simp
  from C1_genotype_parse[OF h1 h2 h3 h4] obtain n gene cnt where
    r: "list_index ?P ''none'' = Inr n" "parse ?P 2 ?W = Inr (gene, cnt)"
      "length gene = 2 * nat 2" by blast
  from r(2) v have "gene = ?g" by simp
  with r(3) have len: ?len by simp
  have "list_index ?P ''none'' = Inr 0" by code_simp
  with h1 h2 h3 v len show ?thesis by blast
qed

section \<open>The choice of the size model and the order of the keys\<close>

lemma for_loop_invariant:
  assumes "for_loop xs s body = Inr s'" and "I s"
    and "\<And>s x s'. I s \<Longrightarrow> body s x = Inr s' \<Longrightarrow> I s'"
  shows "I s'"
  using assms(1,2)
proof (induction xs arbitrary: s)
  case Nil
  then show ?case by simp
next
  case (Cons x xs)
  from Cons.prems(1) obtain s1 where b: "body s x = Inr s1" and r: "for_loop xs s1 body = Inr s'"
    by (auto split: sum.splits)
  from assms(3)[OF Cons.prems(2) b] have "I s1" .
  from Cons.IH[OF r this] show ?case .
qed

lemma for_loop_fails:
  assumes "\<And>s x. body s x = Inl e" and "xs \<noteq> []"
  shows "for_loop xs s body = Inl e"
  using assms by (cases xs) auto

lemma find_k_best_not_none:
  assumes "find_k_best PRIMITIVES W j = Inr (Some k)"
  shows "\<exists>n. list_index PRIMITIVES ''none'' = Inr n \<and> k \<noteq> n"
proof (cases "list_index PRIMITIVES ''none''")
  case (Inl e)
  from assms obtain row where row: "getitem W j = Inr row"
    by (auto simp: find_k_best_def split: sum.splits)
  have "for_loop (py_range (int (length row))) None
            (\<lambda>k_best k.
               case list_index PRIMITIVES ''none'' of
                 Inl e \<Rightarrow> Inl e
               | Inr none \<Rightarrow>
                   Inr (if k \<noteq> none
                        then (case k_best of
                                None \<Rightarrow> Some k
                              | Some b \<Rightarrow> if row ! b < row ! k then Some k else k_best)
                        else k_best)) \<noteq> Inr (Some k)"
  proof (cases "row = []")
    case True
    then show ?thesis by (simp add: py_range_def)
  next
    case False
    then have "py_range (int (length row)) \<noteq> []" by simp
    then have "for_loop (py_range (int (length row))) None (\<lambda>k_best k. Inl e)
        = (Inl e :: error + nat option)"
      by (intro for_loop_fails) simp_all
    with Inl show ?thesis by simp
  qed
  with assms row show ?thesis by (simp add: find_k_best_def)
next
  case (Inr n)
  from assms obtain row where row: "getitem W j = Inr row"
    by (auto simp: find_k_best_def split: sum.splits)
  from k_best_loop[where m = "length row" and n = n and row = row] obtain r where
    l: "for_loop [0..<length row] None
           (\<lambda>k_best k.
               case (Inr n :: error + nat) of
                 Inl e \<Rightarrow> Inl e
               | Inr none \<Rightarrow>
                   Inr (if k \<noteq> none
                        then (case k_best of
                                None \<Rightarrow> Some k
                              | Some b \<Rightarrow> if row ! b < row ! k then Some k else k_best)
                        else k_best)) = Inr r"
    and inv: "case r of None \<Rightarrow> \<forall>k<length row. k = n | Some b \<Rightarrow> b < length row \<and> b \<noteq> n
                \<and> (\<forall>k<length row. k \<noteq> n \<longrightarrow> row ! k \<le> row ! b)
                \<and> (\<forall>k<b. k \<noteq> n \<longrightarrow> row ! k < row ! b)" by blast
  from assms row Inr l have "r = Some k" by (simp add: find_k_best_def)
  with inv have "k \<noteq> n" by simp
  with Inr show ?thesis by blast
qed

lemma parse_excludes_none:
  assumes "parse PRIMITIVES steps weights = Inr (gene, cnt)" and "distinct PRIMITIVES"
  shows "\<forall>p\<in>set gene. fst p \<noteq> ''none''"
proof -
  let ?I = "\<lambda>g :: (string \<times> nat) list. \<forall>p\<in>set g. fst p \<noteq> ''none''"
  let ?edge = "\<lambda>W (gene, cnn_structure_count :: nat) j.
                                   case find_k_best PRIMITIVES W j of
                                     Inl e \<Rightarrow> Inl e
                                   | Inr None \<Rightarrow> Inl TypeError
                                   | Inr (Some k_best) \<Rightarrow>
                                       (case getitem PRIMITIVES k_best of
                                          Inl e \<Rightarrow> Inl e
                                        | Inr name \<Rightarrow>
                                            Inr (gene @ [(name, j)],
                                                 if isCNNStructure k_best
                                                 then cnn_structure_count + 1
                                                 else cnn_structure_count))"
  have edge: "?I (fst s')" if "?I (fst s)" "?edge W s j = Inr s'" for W s j s'
  proof -
    obtain g c where s: "s = (g, c)" by (cases s)
    from that(2) s obtain k where k: "find_k_best PRIMITIVES W j = Inr (Some k)"
      and gi: "getitem PRIMITIVES k = Inr (PRIMITIVES ! k)" and kl: "k < length PRIMITIVES"
      and s': "fst s' = g @ [(PRIMITIVES ! k, j)]"
      by (auto simp: getitem_def split: sum.splits option.splits if_splits)
    from find_k_best_not_none[OF k] obtain n where
      n: "list_index PRIMITIVES ''none'' = Inr n" "k \<noteq> n" by blast
    from list_index_Inr[OF n(1)] have "n < length PRIMITIVES" "PRIMITIVES ! n = ''none''"
      by simp_all
    with assms(2) kl n(2) have "PRIMITIVES ! k \<noteq> ''none''"
      by (metis nth_eq_iff_index_eq)
    with that(1) s s' show ?thesis by simp
  qed
  let ?body = "\<lambda>(gene, n, start, cnn_structure_count :: nat) i.
                let stop = start + n;
                    W = take (stop - start) (drop start weights)
                in case py_sorted (py_range (int i + 2))
                          (\<lambda>x. case edge_max PRIMITIVES W x of
                                  Inl e \<Rightarrow> Inl e
                                | Inr m \<Rightarrow> Inr (- m))
                   of Inl e \<Rightarrow> Inl e
                    | Inr sorted_edges \<Rightarrow>
                        (case for_loop (take 2 sorted_edges) (gene, cnn_structure_count)
                                (?edge W)
                         of Inl e \<Rightarrow> Inl e
                          | Inr (gene, cnn_structure_count) \<Rightarrow>
                              Inr (gene, n + 1, stop, cnn_structure_count))"
  have node: "?I (fst s')" if "?I (fst s)" "?body s i = Inr s'" for s i s'
  proof -
    obtain g n st c where s: "s = (g, n, st, c)" by (cases s)
    let ?W = "take (st + n - st) (drop st weights)"
    from that(2) s obtain es g' c' where
      l: "for_loop (take 2 es) (g, c) (?edge ?W) = Inr (g', c')" and s': "fst s' = g'"
      by (auto simp: Let_def split: sum.splits prod.splits)
    have "?I (fst (g', c'))"
      by (rule for_loop_invariant[where I = "\<lambda>s. ?I (fst s)", OF l])
        (use that(1) s edge in auto)
    with s' show ?thesis by simp
  qed
  from assms(1) obtain n st where
    l: "for_loop (py_range steps) ([], 2, 0, 0) ?body = Inr (gene, n, st, cnt)"
    unfolding parse_def by (auto split: sum.splits prod.splits)
  have "?I (fst (gene, n, st, cnt))"
    by (rule for_loop_invariant[where I = "\<lambda>s. ?I (fst s)", OF l]) (use node in auto)
  then show ?thesis by simp
qed


lemma argmax_first_max:
  assumes "row \<noteq> []"
  shows "\<exists>k. argmax row = Inr k \<and> k < length row
            \<and> (\<forall>k'<length row. row ! k' \<le> row ! k) \<and> (\<forall>k'<k. row ! k' < row ! k)"
  using first_max_props[OF assms] assms by (simp add: argmax_def)

lemma choice_coincides_iff:
  "(\<forall>row. row \<noteq> [] \<and> length row = length PRIMITIVES \<longrightarrow>
        (\<exists>k. argmax row = Inr k \<and> getitem keys k = Inr (PRIMITIVES ! k)))
   \<longleftrightarrow> (\<forall>k<length PRIMITIVES. k < length keys \<and> keys ! k = PRIMITIVES ! k)"
proof
  assume a: "\<forall>row. row \<noteq> [] \<and> length row = length PRIMITIVES \<longrightarrow>
        (\<exists>k. argmax row = Inr k \<and> getitem keys k = Inr (PRIMITIVES ! k))"
  show "\<forall>k<length PRIMITIVES. k < length keys \<and> keys ! k = PRIMITIVES ! k"
  proof (intro allI impI)
    fix k assume k: "k < length PRIMITIVES"
    let ?row = "(replicate (length PRIMITIVES) (0::real))[k := 1]"
    from k have "?row \<noteq> [] \<and> length ?row = length PRIMITIVES" by auto
    with a obtain k' where k': "argmax ?row = Inr k'" "getitem keys k' = Inr (PRIMITIVES ! k')"
      by blast
    from k'(1) first_max_one_hot[OF k] k have "k' = k" by (auto simp: argmax_def split: if_splits)
    with k'(2) show "k < length keys \<and> keys ! k = PRIMITIVES ! k"
      by (auto simp: getitem_def split: if_splits)
  qed
next
  assume a: "\<forall>k<length PRIMITIVES. k < length keys \<and> keys ! k = PRIMITIVES ! k"
  show "\<forall>row. row \<noteq> [] \<and> length row = length PRIMITIVES \<longrightarrow>
        (\<exists>k. argmax row = Inr k \<and> getitem keys k = Inr (PRIMITIVES ! k))"
  proof (intro allI impI)
    fix row :: "real list" assume r: "row \<noteq> [] \<and> length row = length PRIMITIVES"
    then obtain k where k: "argmax row = Inr k" "k < length row"
      using argmax_first_max[of row] by blast
    with r a have "getitem keys k = Inr (PRIMITIVES ! k)" by (simp add: getitem_def)
    with k(1) show "\<exists>k. argmax row = Inr k \<and> getitem keys k = Inr (PRIMITIVES ! k)" by blast
  qed
qed

text \<open>
  Claim C10.  In a cell built by \<^verbatim>\<open>InnerCell.__init__\<close>, the name chosen for an edge is the
  key at position \<open>k\<close> of \<^verbatim>\<open>list(OPS.keys())\<close>, where \<open>k\<close> is the argmax of the edge's whole
  row (no position is left out); so when the key at the argmax is \<^verbatim>\<open>"none"\<close>, the edge
  holds the operation \<^verbatim>\<open>"none"\<close>.  The gene that \<^verbatim>\<open>_parse\<close> returns never names \<^verbatim>\<open>"none"\<close>
  (for primitives with distinct names).  And the chosen key is the primitive at the
  argmax for every non-empty row of \<open>|PRIMITIVES|\<close> weights exactly when the keys and the
  primitives agree at every position of a row.
\<close>

theorem C10_choice_by_key_order:
  "(InnerCell_init keys steps multiplier C_prev_prev C_prev C reduction reduction_prev weights
      = Inr cell \<longrightarrow>
      (\<forall>i<nat steps. \<forall>j<i + 2. \<exists>k.
           edge_offset i + j < length weights
         \<and> argmax (weights ! (edge_offset i + j)) = Inr k
         \<and> k < length (weights ! (edge_offset i + j))
         \<and> (\<forall>k'<length (weights ! (edge_offset i + j)).
               weights ! (edge_offset i + j) ! k' \<le> weights ! (edge_offset i + j) ! k)
         \<and> getitem keys k = Inr (keys ! k)
         \<and> op_name (cell_ops cell ! (edge_offset i + j)) = Some (keys ! k)
         \<and> (keys ! k = ''none'' \<longrightarrow>
               cell_ops cell ! (edge_offset i + j)
                 = Operation ''none'' C (if reduction \<and> j < 2 then 2 else 1) False)))
   \<and> (parse PRIMITIVES steps' table = Inr (gene, cnt) \<and> distinct PRIMITIVES \<longrightarrow>
        (\<forall>p\<in>set gene. fst p \<noteq> ''none''))
   \<and> ((\<forall>row. row \<noteq> [] \<and> length row = length PRIMITIVES \<longrightarrow>
          (\<exists>k. argmax row = Inr k \<and> getitem keys k = Inr (PRIMITIVES ! k)))
      \<longleftrightarrow> (\<forall>k<length PRIMITIVES. k < length keys \<and> keys ! k = PRIMITIVES ! k))"
proof (intro conjI impI)
  assume a: "InnerCell_init keys steps multiplier C_prev_prev C_prev C reduction reduction_prev
               weights = Inr cell"
  show "\<forall>i<nat steps. \<forall>j<i + 2. \<exists>k.
           edge_offset i + j < length weights
         \<and> argmax (weights ! (edge_offset i + j)) = Inr k
         \<and> k < length (weights ! (edge_offset i + j))
         \<and> (\<forall>k'<length (weights ! (edge_offset i + j)).
               weights ! (edge_offset i + j) ! k' \<le> weights ! (edge_offset i + j) ! k)
         \<and> getitem keys k = Inr (keys ! k)
         \<and> op_name (cell_ops cell ! (edge_offset i + j)) = Some (keys ! k)
         \<and> (keys ! k = ''none'' \<longrightarrow>
               cell_ops cell ! (edge_offset i + j)
                 = Operation ''none'' C (if reduction \<and> j < 2 then 2 else 1) False)"
  proof (intro allI impI)
    fix i j assume ij: "i < nat steps" "j < i + 2"
    let ?e = "edge_offset i + j"
    let ?k = "first_max (weights ! ?e)"
    from InnerCell_init_ops[OF a] ij
    have "InnerCell_edge keys C reduction weights (edge_offset i) j = Inr (cell_ops cell ! ?e)"
      by blast
    note e = InnerCell_edge_Inr[OF this]
    from e have ne: "weights ! ?e \<noteq> []" and kl: "?k < length keys" by blast+
    note fm = first_max_props[OF ne]
    have am: "argmax (weights ! ?e) = Inr ?k" using ne by (simp add: argmax_def)
    have gi: "getitem keys ?k = Inr (keys ! ?k)" using kl by (simp add: getitem_def)
    have op: "cell_ops cell ! ?e
        = (if sublist ''pool'' (keys ! ?k)
           then Sequential [Operation (keys ! ?k) C (edge_stride reduction j) False,
                            BatchNorm2d C False]
           else Operation (keys ! ?k) C (edge_stride reduction j) False)"
      using e by (simp add: Let_def)
    then have nm: "op_name (cell_ops cell ! ?e) = Some (keys ! ?k)" by simp
    have np: "\<not> sublist ''pool'' ''none''" by code_simp
    have zero: "keys ! ?k = ''none'' \<longrightarrow>
               cell_ops cell ! ?e = Operation ''none'' C (if reduction \<and> j < 2 then 2 else 1) False"
      using op np by (simp add: edge_stride_def)
    from e fm am gi nm zero
    show "\<exists>k. ?e < length weights
         \<and> argmax (weights ! ?e) = Inr k
         \<and> k < length (weights ! ?e)
         \<and> (\<forall>k'<length (weights ! ?e). weights ! ?e ! k' \<le> weights ! ?e ! k)
         \<and> getitem keys k = Inr (keys ! k)
         \<and> op_name (cell_ops cell ! ?e) = Some (keys ! k)
         \<and> (keys ! k = ''none'' \<longrightarrow>
               cell_ops cell ! ?e
                 = Operation ''none'' C (if reduction \<and> j < 2 then 2 else 1) False)"
      by blast
  qed
next
  assume "parse PRIMITIVES steps' table = Inr (gene, cnt) \<and> distinct PRIMITIVES"
  then show "\<forall>p\<in>set gene. fst p \<noteq> ''none''"
    using parse_excludes_none by blast
next
  show "(\<forall>row. row \<noteq> [] \<and> length row = length PRIMITIVES \<longrightarrow>
          (\<exists>k. argmax row = Inr k \<and> getitem keys k = Inr (PRIMITIVES ! k)))
      \<longleftrightarrow> (\<forall>k<length PRIMITIVES. k < length keys \<and> keys ! k = PRIMITIVES ! k)"
    by (rule choice_coincides_iff)
qed

theorem C10_choice_by_key_order_witness:
  "InnerCell_init [''none'', ''avg_pool_3x3'', ''max_pool_3x3''] 1 1 8 8 8 True False
     [[9 / 10, 1 / 20, 1 / 20], [1 / 10, 7 / 10, 2 / 10]]
     = Inr \<lparr>cell_reduction = True,
            cell_preprocess0 = ReLUConvBN 8 8 1 1 0 False,
            cell_preprocess1 = ReLUConvBN 8 8 1 1 0 False,
            cell_steps = 1, cell_multiplier = 1,
            cell_ops =
              [Operation ''none'' 8 2 False,
               Sequential [Operation ''avg_pool_3x3'' 8 2 False, BatchNorm2d 8 False]]\<rparr>
   \<and> argmax [9 / 10, 1 / 20, 1 / 20] = Inr 0
   \<and> op_name (Operation ''none'' 8 2 False) = Some ''none''
   \<and> parse [''none'', ''max_pool_3x3'', ''avg_pool_3x3''] 1
         [[9 / 10, 1 / 20, 1 / 20], [1 / 10, 7 / 10, 2 / 10]]
       = Inr ([(''max_pool_3x3'', 1), (''max_pool_3x3'', 0)], 0)
   \<and> distinct [''none'', ''max_pool_3x3'', ''avg_pool_3x3'']
   \<and> fst (''max_pool_3x3'', 1 :: nat) \<noteq> ''none''
   \<and> \<not> (\<forall>row. row \<noteq> [] \<and> length row = length [''none'', ''max_pool_3x3'', ''avg_pool_3x3'']
            \<longrightarrow> (\<exists>k. argmax row = Inr k
                   \<and> getitem [''none'', ''avg_pool_3x3'', ''max_pool_3x3''] k
                       = Inr ([''none'', ''max_pool_3x3'', ''avg_pool_3x3''] ! k)))"
  (is "?i = Inr ?cell \<and> ?am \<and> ?nm \<and> ?p = Inr (?g, 0) \<and> ?d \<and> ?f \<and> \<not> ?all")
proof -
  let ?K = "[''none'', ''avg_pool_3x3'', ''max_pool_3x3'']"
  let ?P = "[''none'', ''max_pool_3x3'', ''avg_pool_3x3'']"
  let ?W = "[[9 / 10, 1 / 20, 1 / 20], [1 / 10, 7 / 10, 2 / 10 :: real]]"
  have i: "?i = Inr ?cell" by code_simp
  have p: "?p = Inr (?g, 0)" by code_simp
  have d: ?d by simp
  have am: ?am by code_simp
  note T = C10_choice_by_key_order[of ?K 1 1 8 8 8 True False ?W ?cell ?P 1 ?W ?g 0]
  have ij: "(0::nat) < nat 1" "(0::nat) < 0 + 2" by simp_all
  from T[THEN conjunct1, rule_format, OF i ij] obtain k where
    k: "argmax (?W ! (edge_offset 0 + 0)) = Inr k"
      "op_name (cell_ops ?cell ! (edge_offset 0 + 0)) = Some (?K ! k)" by blast
  from k(1) am have "k = 0" by simp
  with k(2) have nm: ?nm by simp
  from T[THEN conjunct2, THEN conjunct1, rule_format, OF conjI[OF p d],
      of "(''max_pool_3x3'', 1)"]
  have f: ?f by simp
  have "\<not> (\<forall>k<length ?P. k < length ?K \<and> ?K ! k = ?P ! k)"
  proof
    assume "\<forall>k<length ?P. k < length ?K \<and> ?K ! k = ?P ! k"
    then have "(1::nat) < length ?P \<longrightarrow> ?K ! 1 = ?P ! 1" by blast
    then show False by simp
  qed
  with T[THEN conjunct2, THEN conjunct2] have na: "\<not> ?all" by blast
  from i am nm p d f na show ?thesis by blast
qed

end
